theory Spec2Isabelle
  imports Main "HOL-Library.Word" "HOL-Library.AList"
begin

section \<open>The rendezvous broker\<close>

text \<open>
  The signaling server keeps one table \<open>rooms\<close> (a JavaScript \<open>Map\<close>, which iterates in
  insertion order and keeps the position of a key that is set again: an association list
  updated with \<open>AList.update\<close>), and per connection the closure variables \<open>currentRoom\<close>
  and \<open>peerId\<close>. A socket is identified by a number, handed out in connection order.
  Every call of \<open>send\<close> on a socket is recorded, in order, in the field \<open>sent\<close>;
  \<open>send\<close> is taken to return normally.
\<close>

subsection \<open>Data\<close>

type_synonym ws = nat

datatype readyState = OPEN | CLOSING | CLOSED

text \<open>
  The opaque \<open>offer\<close>, \<open>answer\<close> and \<open>candidate\<close> fields of a frame. The broker only
  ever tests them for JavaScript truthiness: \<open>Absent\<close> stands for the falsy values
  (a missing field, \<open>null\<close>, \<open>false\<close>, \<open>0\<close>, the empty string), \<open>Obj k\<close> for any other
  value, such as a session description object.
\<close>

datatype payload = Absent | Obj nat

definition truthy :: "payload \<Rightarrow> bool" where
  "truthy p = (p \<noteq> Absent)"

record room =
  peers :: "ws list"
  createdAt :: int
  peerIds :: "(ws \<times> string) list"
  pendingOffer :: payload
  pendingAnswer :: payload

datatype role = Sender | Receiver

datatype in_frame =
    Join bool "string option"
  | Offer payload
  | Answer payload
  | IceCandidate payload
  | Transfer payload
  | Ping
  | Unknown
  | Malformed

datatype error_msg = RoomFull | InvalidRoom | InvalidFormat

datatype out_msg =
    Connected
  | Joined string "string option" role "nat option"
  | Error error_msg
  | PendingOffer payload
  | Forwarded in_frame
  | PeerDisconnected
  | RoomExpired
  | Pong

record config =
  ROOM_EXPIRY :: int
  MAX_ROOM_SIZE :: nat

definition default_config :: config where
  "default_config = \<lparr>ROOM_EXPIRY = 600000, MAX_ROOM_SIZE = 2\<rparr>"

record broker =
  rooms :: "(string \<times> room) list"
  readyStates :: "ws \<Rightarrow> readyState"
  currentRoom :: "ws \<Rightarrow> string option"
  peerId :: "ws \<Rightarrow> string option"
  sent :: "(ws \<times> out_msg) list"
  nextWs :: nat

definition init_broker :: broker where
  "init_broker = \<lparr>rooms = [], readyStates = (\<lambda>_. CLOSED), currentRoom = (\<lambda>_. None),
     peerId = (\<lambda>_. None), sent = [], nextWs = 0\<rparr>"

subsection \<open>Room codes\<close>

definition chars :: string where
  "chars = ''ABCDEFGHJKLMNPQRSTUVWXYZ23456789''"

text \<open>\<open>String.prototype.charAt\<close>: the empty string out of range.\<close>

definition charAt :: "string \<Rightarrow> nat \<Rightarrow> string" where
  "charAt s k = (if k < length s then [s ! k] else [])"

text \<open>
  \<open>Math.floor(Math.random() * chars.length)\<close> is one of the 32 indices \<open>0..31\<close>: the
  \<open>i\<close>-th draw of a call is the five-bit value \<open>rnd i\<close>.
\<close>

function generateRoomCode_loop :: "(nat \<Rightarrow> 5 word) \<Rightarrow> nat \<Rightarrow> string \<Rightarrow> string" where
  "generateRoomCode_loop rnd i code =
     (if i < 6 then generateRoomCode_loop rnd (i + 1) (code @ charAt chars (unat (rnd i)))
      else code)"
  by pat_completeness auto
termination
  by (relation "measure (\<lambda>(rnd, i, code). 6 - i)") auto

declare generateRoomCode_loop.simps [simp del]

definition generateRoomCode :: "(nat \<Rightarrow> 5 word) \<Rightarrow> string" where
  "generateRoomCode rnd = generateRoomCode_loop rnd 0 []"

subsection \<open>Handlers\<close>

definition ws_send :: "ws \<Rightarrow> out_msg \<Rightarrow> broker \<Rightarrow> broker" where
  "ws_send w m s = s\<lparr>sent := sent s @ [(w, m)]\<rparr>"

text \<open>The \<open>forEach((peer, index) => ...)\<close> of \<open>handleJoin\<close> that notifies both peers.\<close>

fun notifyJoined :: "string \<Rightarrow> room \<Rightarrow> ws list \<Rightarrow> nat \<Rightarrow> broker \<Rightarrow> broker" where
  "notifyJoined roomId rm [] index s = s"
| "notifyJoined roomId rm (peer # ps) index s =
     notifyJoined roomId rm ps (index + 1)
       (if readyStates s peer = OPEN
        then ws_send peer (Joined roomId (map_of (peerIds rm) peer)
               (if index = 0 then Sender else Receiver) (Some (length (peers rm)))) s
        else s)"

text \<open>
  \<open>roomId && rooms.has(roomId)\<close>, and \<open>currentRoom && rooms.has(currentRoom)\<close>: the room
  a handler works on, if there is one. A missing name and the empty string are falsy.
\<close>

definition lookupRoom :: "broker \<Rightarrow> string option \<Rightarrow> (string \<times> room) option" where
  "lookupRoom s cr =
     (case cr of None \<Rightarrow> None
      | Some rid \<Rightarrow> if rid = [] then None else map_option (Pair rid) (map_of (rooms s) rid))"

definition handleJoin ::
  "config \<Rightarrow> int \<Rightarrow> (nat \<Rightarrow> 5 word) \<Rightarrow> ws \<Rightarrow> string option \<Rightarrow> bool \<Rightarrow> broker \<Rightarrow> broker" where
  "handleJoin cfg now rnd w roomId createNew s =
     (if createNew then
        (let newRoomId = generateRoomCode rnd;
             s1 = s\<lparr>peerId := (peerId s)(w := Some ''peer1''),
                    currentRoom := (currentRoom s)(w := Some newRoomId)\<rparr>;
             s2 = s1\<lparr>rooms := AList.update newRoomId
                    \<lparr>peers = [w], createdAt = now, peerIds = [(w, ''peer1'')],
                     pendingOffer = Absent, pendingAnswer = Absent\<rparr> (rooms s1)\<rparr>
         in ws_send w (Joined newRoomId (Some ''peer1'') Sender None) s2)
      else
        (case lookupRoom s roomId of
           Some (rid, rm) \<Rightarrow>
             if length (peers rm) \<ge> MAX_ROOM_SIZE cfg then ws_send w (Error RoomFull) s
             else
               (let s1 = s\<lparr>peerId := (peerId s)(w := Some ''peer2''),
                          currentRoom := (currentRoom s)(w := Some rid)\<rparr>;
                    rm1 = rm\<lparr>peers := peers rm @ [w],
                             peerIds := AList.update w ''peer2'' (peerIds rm)\<rparr>;
                    s2 = s1\<lparr>rooms := AList.update rid rm1 (rooms s1)\<rparr>;
                    s3 = notifyJoined rid rm1 (peers rm1) 0 s2
                in if truthy (pendingOffer rm1) \<and> readyStates s3 w = OPEN
                   then (ws_send w (PendingOffer (pendingOffer rm1)) s3)
                          \<lparr>rooms := AList.update rid (rm1\<lparr>pendingOffer := Absent\<rparr>) (rooms s3)\<rparr>
                   else s3)
         | None \<Rightarrow> ws_send w (Error InvalidRoom) s))"

text \<open>The \<open>forEach\<close> that relays a frame to every other open peer of a room.\<close>

fun forwardToOthers :: "ws list \<Rightarrow> ws \<Rightarrow> in_frame \<Rightarrow> broker \<Rightarrow> broker" where
  "forwardToOthers [] w data s = s"
| "forwardToOthers (peer # ps) w data s =
     forwardToOthers ps w data
       (if peer \<noteq> w \<and> readyStates s peer = OPEN then ws_send peer (Forwarded data) s else s)"

definition setRoom :: "string \<Rightarrow> room \<Rightarrow> broker \<Rightarrow> broker" where
  "setRoom rid rm s = s\<lparr>rooms := AList.update rid rm (rooms s)\<rparr>"

definition handleSignaling :: "ws \<Rightarrow> in_frame \<Rightarrow> broker \<Rightarrow> broker" where
  "handleSignaling w data s =
     (case lookupRoom s (currentRoom s w) of
        None \<Rightarrow> s
      | Some (rid, rm) \<Rightarrow>
          (case data of
             Offer off \<Rightarrow>
               (if 1 < length (peers rm) \<and> readyStates s (peers rm ! 1) = OPEN
                then ws_send (peers rm ! 1) (Forwarded data) s
                else setRoom rid (rm\<lparr>pendingOffer := off\<rparr>) s)
           | Answer ans \<Rightarrow>
               (if 0 < length (peers rm) \<and> readyStates s (peers rm ! 0) = OPEN
                then ws_send (peers rm ! 0) (Forwarded data) s
                else setRoom rid (rm\<lparr>pendingAnswer := ans\<rparr>) s)
           | _ \<Rightarrow> forwardToOthers (peers rm) w data s))"

definition broadcastToRoom :: "string option \<Rightarrow> ws \<Rightarrow> in_frame \<Rightarrow> broker \<Rightarrow> broker" where
  "broadcastToRoom roomId w data s =
     (case lookupRoom s roomId of
        None \<Rightarrow> s
      | Some (rid, rm) \<Rightarrow> forwardToOthers (peers rm) w data s)"

definition onMessage ::
  "config \<Rightarrow> int \<Rightarrow> (nat \<Rightarrow> 5 word) \<Rightarrow> ws \<Rightarrow> in_frame \<Rightarrow> broker \<Rightarrow> broker" where
  "onMessage cfg now rnd w data s =
     (case data of
        Join createNew roomId \<Rightarrow> handleJoin cfg now rnd w roomId createNew s
      | Offer _ \<Rightarrow> handleSignaling w data s
      | Answer _ \<Rightarrow> handleSignaling w data s
      | IceCandidate _ \<Rightarrow> handleSignaling w data s
      | Transfer _ \<Rightarrow> broadcastToRoom (currentRoom s w) w data s
      | Ping \<Rightarrow> ws_send w Pong s
      | Unknown \<Rightarrow> s
      | Malformed \<Rightarrow> (if readyStates s w = OPEN then ws_send w (Error InvalidFormat) s else s))"

text \<open>The \<open>forEach\<close> of the close handler that tells the remaining peers.\<close>

fun notifyDisconnected :: "ws list \<Rightarrow> broker \<Rightarrow> broker" where
  "notifyDisconnected [] s = s"
| "notifyDisconnected (peer # ps) s =
     notifyDisconnected ps
       (if readyStates s peer = OPEN then ws_send peer PeerDisconnected s else s)"

definition onClose :: "ws \<Rightarrow> broker \<Rightarrow> broker" where
  "onClose w s =
     (case lookupRoom s (currentRoom s w) of
        None \<Rightarrow> s
      | Some (rid, rm) \<Rightarrow>
          (let rm1 = rm\<lparr>peers := filter (\<lambda>p. p \<noteq> w) (peers rm)\<rparr>;
               s1 = notifyDisconnected (peers rm1) (setRoom rid rm1 s)
           in if length (peers rm1) = 0 then s1\<lparr>rooms := AList.delete rid (rooms s1)\<rparr>
              else s1))"

text \<open>The expiry sweep: \<open>peer.close()\<close> takes an open socket to \<open>CLOSING\<close>.\<close>

fun expirePeers :: "ws list \<Rightarrow> broker \<Rightarrow> broker" where
  "expirePeers [] s = s"
| "expirePeers (peer # ps) s =
     expirePeers ps
       (if readyStates s peer = OPEN
        then (ws_send peer RoomExpired s)\<lparr>readyStates := (readyStates s)(peer := CLOSING)\<rparr>
        else s)"

fun sweepRooms :: "config \<Rightarrow> int \<Rightarrow> (string \<times> room) list \<Rightarrow> broker \<Rightarrow> broker" where
  "sweepRooms cfg now [] s = s"
| "sweepRooms cfg now ((roomId, rm) # rest) s =
     sweepRooms cfg now rest
       (if now - createdAt rm > ROOM_EXPIRY cfg
        then (let s1 = expirePeers (peers rm) s in s1\<lparr>rooms := AList.delete roomId (rooms s1)\<rparr>)
        else s)"

definition sweep :: "config \<Rightarrow> int \<Rightarrow> broker \<Rightarrow> broker" where
  "sweep cfg now s = sweepRooms cfg now (rooms s) s"

subsection \<open>Events\<close>

text \<open>
  What can happen to the broker: a new connection (which sends the welcome message), a
  frame from a socket that has not closed (with the clock reading and the random draws of
  that handler run), a socket leaving the \<open>OPEN\<close> state (the peer started closing, or the
  heartbeat terminated it), the \<open>close\<close> event of a socket, and a tick of the expiry timer.
\<close>

datatype event =
    Connection
  | Message ws in_frame int "nat \<Rightarrow> 5 word"
  | Down ws
  | Close ws
  | Sweep int

definition onConnection :: "broker \<Rightarrow> broker" where
  "onConnection s =
     (let w = nextWs s;
          s1 = s\<lparr>readyStates := (readyStates s)(w := OPEN),
                 currentRoom := (currentRoom s)(w := None),
                 peerId := (peerId s)(w := None),
                 nextWs := w + 1\<rparr>
      in if readyStates s1 w = OPEN then ws_send w Connected s1 else s1)"

fun step :: "config \<Rightarrow> broker \<Rightarrow> event \<Rightarrow> broker" where
  "step cfg s Connection = onConnection s"
| "step cfg s (Message w data now rnd) =
     (if w < nextWs s \<and> readyStates s w \<noteq> CLOSED then onMessage cfg now rnd w data s else s)"
| "step cfg s (Down w) =
     (if w < nextWs s \<and> readyStates s w = OPEN
      then s\<lparr>readyStates := (readyStates s)(w := CLOSING)\<rparr> else s)"
| "step cfg s (Close w) =
     (if w < nextWs s \<and> readyStates s w \<noteq> CLOSED
      then onClose w (s\<lparr>readyStates := (readyStates s)(w := CLOSED)\<rparr>) else s)"
| "step cfg s (Sweep now) = sweep cfg now s"

definition run :: "config \<Rightarrow> broker \<Rightarrow> event list \<Rightarrow> broker" where
  "run cfg s evs = foldl (step cfg) s evs"

inductive reachable :: "config \<Rightarrow> broker \<Rightarrow> bool" for cfg :: config where
  reach_init: "reachable cfg init_broker"
| reach_step: "reachable cfg s \<Longrightarrow> reachable cfg (step cfg s e)"

subsection \<open>Traces, invariants and scenarios of the broker\<close>

text \<open>
  What was sent to one socket, in order, and what a handler run added to the trace.
\<close>

definition sentTo :: "ws \<Rightarrow> broker \<Rightarrow> out_msg list" where
  "sentTo w s = map snd (filter (\<lambda>(w', m). w' = w) (sent s))"

definition newMsgs :: "broker \<Rightarrow> broker \<Rightarrow> (ws \<times> out_msg) list" where
  "newMsgs s s' = drop (length (sent s)) (sent s')"

definition joinedMsg :: "string \<Rightarrow> room \<Rightarrow> nat \<times> ws \<Rightarrow> ws \<times> out_msg" where
  "joinedMsg rid rm = (\<lambda>(j, p). (p, Joined rid (map_of (peerIds rm) p)
      (if j = 0 then Sender else Receiver) (Some (length (peers rm)))))"

text \<open>
  The invariant of the room table: keys are distinct six-character codes, and every room
  has at least one peer and at most \<open>MAX_ROOM_SIZE\<close> of them (one, if the limit is set below one:
  creation does not consult it).
\<close>

definition room_ok :: "config \<Rightarrow> string \<Rightarrow> room \<Rightarrow> bool" where
  "room_ok cfg rid rm =
     (length rid = 6 \<and> peers rm \<noteq> [] \<and> length (peers rm) \<le> max 1 (MAX_ROOM_SIZE cfg))"

definition rooms_ok :: "config \<Rightarrow> broker \<Rightarrow> bool" where
  "rooms_ok cfg s = (distinct (map fst (rooms s)) \<and>
     (\<forall>rid rm. map_of (rooms s) rid = Some rm \<longrightarrow> room_ok cfg rid rm))"

text \<open>
  Concrete runs. All random draws are \<open>0\<close>, so every generated code is \<open>AAAAAA\<close>.
\<close>

definition zero_draws :: "nat \<Rightarrow> 5 word" where
  "zero_draws i = 0"

definition connected_state :: broker where
  "connected_state = run default_config init_broker [Connection]"

definition first_room_state :: broker where
  "first_room_state = run default_config init_broker
     [Connection, Connection, Message 0 (Join True None) 1000 zero_draws]"

definition collision_state :: broker where
  "collision_state = step default_config first_room_state (Message 1 (Join True None) 2000 zero_draws)"

definition two_peers_events :: "event list" where
  "two_peers_events =
     [Connection, Connection, Connection,
      Message 0 (Join True None) 1000 zero_draws,
      Message 1 (Join False (Some ''AAAAAA'')) 2000 zero_draws]"

definition two_peers_state :: broker where
  "two_peers_state = run default_config init_broker two_peers_events"

definition two_peers_room :: room where
  "two_peers_room = \<lparr>peers = [0, 1], createdAt = 1000,
     peerIds = [(0, ''peer1''), (1, ''peer2'')], pendingOffer = Absent, pendingAnswer = Absent\<rparr>"

definition role_change_events :: "event list" where
  "role_change_events = two_peers_events @
     [Close 0, Message 2 (Join False (Some ''AAAAAA'')) 3000 zero_draws]"

definition lost_answer_events :: "event list" where
  "lost_answer_events = two_peers_events @
     [Down 0, Message 1 (Answer (Obj 7)) 2500 zero_draws, Close 0,
      Message 2 (Join False (Some ''AAAAAA'')) 3000 zero_draws]"

text \<open>
  Events that act on a room. An event touches the room \<open>rid\<close> when it is the close event
  of a socket whose current room it is, an expiry sweep at which it has expired, a join that
  names it or a creation whose generated code it is, or an \<open>answer\<close> from a socket whose
  current room it is. A run is undisturbed when none of its events touches the room in the
  state it is handled in: connections, pings, ICE candidates and whatever happens in other
  rooms are of that kind. Offers are not counted: \<open>lastOffer\<close> follows them, it is the payload
  of the last \<open>offer\<close> frame that a socket of the room has sent in the run, or the given one
  if there is none.
\<close>

fun touches :: "config \<Rightarrow> string \<Rightarrow> broker \<Rightarrow> event \<Rightarrow> bool" where
  "touches cfg rid s Connection = False"
| "touches cfg rid s (Down w) = False"
| "touches cfg rid s (Close w) = (currentRoom s w = Some rid)"
| "touches cfg rid s (Sweep now) =
     list_ex (\<lambda>(roomId, rm). roomId = rid \<and> now - createdAt rm > ROOM_EXPIRY cfg) (rooms s)"
| "touches cfg rid s (Message w frm now rnd) =
     (case frm of
        Join createNew roomId \<Rightarrow>
          (if createNew then generateRoomCode rnd = rid else roomId = Some rid)
      | Answer _ \<Rightarrow> currentRoom s w = Some rid
      | _ \<Rightarrow> False)"

fun undisturbed :: "config \<Rightarrow> string \<Rightarrow> broker \<Rightarrow> event list \<Rightarrow> bool" where
  "undisturbed cfg rid s [] = True"
| "undisturbed cfg rid s (e # es) =
     (\<not> touches cfg rid s e \<and> undisturbed cfg rid (step cfg s e) es)"

fun lastOffer :: "config \<Rightarrow> string \<Rightarrow> broker \<Rightarrow> event list \<Rightarrow> payload \<Rightarrow> payload" where
  "lastOffer cfg rid s [] off = off"
| "lastOffer cfg rid s (e # es) off =
     lastOffer cfg rid (step cfg s e) es
       (case e of
          Message w (Offer p) now rnd \<Rightarrow>
            if w < nextWs s \<and> readyStates s w \<noteq> CLOSED \<and> currentRoom s w = Some rid
            then p else off
        | _ \<Rightarrow> off)"

text \<open>
  After the first offer: ICE candidates and a second offer of the creator, a new connection
  and a sweep before the room has expired.
\<close>

definition ice_events :: "event list" where
  "ice_events =
     [Message 0 (IceCandidate (Obj 8)) 1500 zero_draws, Connection,
      Message 0 (Offer (Obj 6)) 1550 zero_draws,
      Message 0 (IceCandidate (Obj 9)) 1600 zero_draws, Sweep 60000]"

section \<open>The transfer protocol engine\<close>

text \<open>
  The engine runs over an \<open>RTCDataChannel\<close>. A message on the channel is a string (a JSON
  control message) or binary. Byte counts, offsets and chunk indices are JavaScript
  numbers, exact far beyond any file size: they are natural numbers here. The three header
  fields of a chunk frame are written with \<open>DataView.setUint32\<close>, which stores its argument
  modulo \<open>2 ^ 32\<close>. Progress callbacks and console output other than the size warning are
  left out; \<open>onError\<close> is taken to be installed, as the page does, and to return normally.
\<close>

subsection \<open>Frames\<close>

type_synonym byte = "8 word"

definition CHUNK_SIZE :: nat where
  "CHUNK_SIZE = 64 * 1024"

text \<open>The backpressure threshold \<open>1024 * 1024\<close> of \<open>sendFileChunks\<close>.\<close>

definition BUFFER_THRESHOLD :: nat where
  "BUFFER_THRESHOLD = 1024 * 1024"

text \<open>
  The object the receiver keeps as \<open>currentFile\<close> (its \<open>size\<close> is \<open>fsize\<close> here; its field
  \<open>chunks\<close> is never used).
\<close>

record fileInfo =
  name :: string
  fsize :: nat
  type :: string
  lastModified :: nat

text \<open>A \<open>File\<close>: its content and attributes; \<open>file.size\<close> is the length of the content.\<close>

record File =
  fileName :: string
  content :: "byte list"
  fileType :: string
  fileLastModified :: nat

definition fileSize :: "File \<Rightarrow> nat" where
  "fileSize f = length (content f)"

text \<open>
  The JSON control messages: \<open>file-metadata\<close> (name, size, mimeType, lastModified),
  \<open>file-complete\<close> (fileName, totalChunks and checksum, either of which may be missing),
  \<open>chunk-ack\<close>, and any other string: one that parses to another value, or does not parse
  (the handler returns on both).
\<close>

datatype message =
    FileMetadata string nat string nat
  | FileComplete string "nat option" "string option"
  | ChunkAck nat
  | OtherMessage

datatype frame = Text message | Binary "byte list"

text \<open>\<open>Blob.slice(a, b)\<close> and \<open>ArrayBuffer.slice(a, b)\<close>, which clamp to the length.\<close>

definition sliceBytes :: "'a list \<Rightarrow> nat \<Rightarrow> nat \<Rightarrow> 'a list" where
  "sliceBytes bs a b = take (b - a) (drop a bs)"

text \<open>\<open>Math.ceil(n / d)\<close> on natural numbers.\<close>

definition ceilDiv :: "nat \<Rightarrow> nat \<Rightarrow> nat" where
  "ceilDiv n d = (n + d - 1) div d"

text \<open>\<open>setUint32(_, v, true)\<close>: the four little-endian bytes of \<open>v mod 2 ^ 32\<close>.\<close>

definition setUint32 :: "nat \<Rightarrow> byte list" where
  "setUint32 v =
     (let w = v mod 2 ^ 32
      in [of_nat (w mod 256), of_nat (w div 256 mod 256),
          of_nat (w div 65536 mod 256), of_nat (w div 16777216 mod 256)])"

text \<open>
  \<open>getUint32(off, true)\<close>. The receiver calls it only on buffers of at least 13 bytes, at the
  offsets 1, 5 and 9.
\<close>

definition getUint32 :: "byte list \<Rightarrow> nat \<Rightarrow> nat" where
  "getUint32 bs off =
     unat (bs ! off) + 256 * unat (bs ! (off + 1)) + 65536 * unat (bs ! (off + 2)) +
     16777216 * unat (bs ! (off + 3))"

text \<open>The frame of \<open>sendFileChunks\<close>: type marker, index, totalChunks, dataLength, data.\<close>

definition encodeChunk :: "nat \<Rightarrow> nat \<Rightarrow> byte list \<Rightarrow> byte list" where
  "encodeChunk chunkIndex totalChunks chunk =
     [1] @ setUint32 chunkIndex @ setUint32 totalChunks @ setUint32 (length chunk) @ chunk"

subsection \<open>The sender\<close>

text \<open>
  \<open>sendFileChunks\<close> is a chain of \<open>FileReader\<close> callbacks. Each run of \<open>reader.onload\<close> is one
  step: it looks at the channel (is it open, what is \<open>bufferedAmount\<close>) and either rejects,
  defers, or sends the chunk that was read and schedules the next read or finishes. What
  the channel shows at each run is the environment: a list of observations, one per run.
  A run that schedules nothing further without settling the promise leaves the transfer
  \<open>Stalled\<close>; a transfer whose observations are used up is \<open>Pending\<close>. The channel is taken
  to accept every \<open>send\<close> while it is open (it buffers indefinitely), and to be open still
  when \<open>file-complete\<close> is sent after the last chunk.
\<close>

record sendState =
  offset :: nat
  chunkIndex :: nat
  bytesSent :: nat

datatype outcome = Resolved | Rejected | Stalled | Pending

text \<open>
  The checksum of \<open>file-complete\<close>: \<open>Some h\<close> when \<open>crypto.subtle\<close> is there and the digest
  succeeds, \<open>None\<close> otherwise. It is a parameter \<open>checksum\<close> of the sender.
\<close>

definition onload ::
  "File \<Rightarrow> string option \<Rightarrow> bool \<times> nat \<Rightarrow> sendState \<Rightarrow> frame list \<times> sendState \<times> outcome option" where
  "onload f checksum obs st =
     (let chunk = sliceBytes (content f) (offset st) (offset st + CHUNK_SIZE);
          totalChunks = ceilDiv (fileSize f) CHUNK_SIZE
      in if \<not> fst obs then ([], st, Some Rejected)
         else if snd obs > BUFFER_THRESHOLD
         then ([], st, if offset st < fileSize f then None else Some Stalled)
         else
           (let st1 = \<lparr>offset = offset st + CHUNK_SIZE, chunkIndex = chunkIndex st + 1,
                       bytesSent = bytesSent st + length chunk\<rparr>;
                sentChunk = Binary (encodeChunk (chunkIndex st) totalChunks chunk)
            in if offset st1 < fileSize f then ([sentChunk], st1, None)
               else ([sentChunk, Text (FileComplete (fileName f) (Some totalChunks) checksum)],
                     st1, Some Resolved)))"

fun sendLoop ::
  "File \<Rightarrow> string option \<Rightarrow> (bool \<times> nat) list \<Rightarrow> sendState \<Rightarrow> frame list \<times> outcome" where
  "sendLoop f checksum [] st = ([], Pending)"
| "sendLoop f checksum (obs # env) st =
     (case onload f checksum obs st of
        (fs, st1, None) \<Rightarrow>
          (case sendLoop f checksum env st1 of (gs, r) \<Rightarrow> (fs @ gs, r))
      | (fs, st1, Some r) \<Rightarrow> (fs, r))"

definition sendFileChunks ::
  "File \<Rightarrow> string option \<Rightarrow> bool \<Rightarrow> (bool \<times> nat) list \<Rightarrow> frame list \<times> outcome" where
  "sendFileChunks f checksum channelOpen env =
     (if \<not> channelOpen then ([], Rejected)
      else sendLoop f checksum env \<lparr>offset = 0, chunkIndex = 0, bytesSent = 0\<rparr>)"

definition sendFile ::
  "File \<Rightarrow> string option \<Rightarrow> bool \<Rightarrow> bool \<Rightarrow> (bool \<times> nat) list \<Rightarrow> frame list \<times> outcome" where
  "sendFile f checksum isConnected channelOpen env =
     (if \<not> isConnected then ([], Rejected)
      else if \<not> channelOpen then ([], Rejected)
      else
        (case sendFileChunks f checksum channelOpen env of
           (fs, r) \<Rightarrow>
             (Text (FileMetadata (fileName f) (fileSize f) (fileType f) (fileLastModified f)) # fs,
              r)))"

subsection \<open>The channel's buffered-bytes counter\<close>

text \<open>
  Modelled from the spec: \<open>bufferedAmount\<close> belongs to the browser's \<open>RTCDataChannel\<close>, not
  to the repository. On a channel that buffers indefinitely every \<open>send\<close> adds the byte
  length of its message to the counter, and the counter falls as the browser transmits. The
  byte length of a string message (the length of the UTF-8 encoding of its JSON text) is a
  parameter \<open>textBytes\<close>: \<open>JSON.stringify\<close> is not modelled.
\<close>

definition frameBytes :: "(message \<Rightarrow> nat) \<Rightarrow> frame \<Rightarrow> nat" where
  "frameBytes textBytes fr = (case fr of Binary b \<Rightarrow> length b | Text m \<Rightarrow> textBytes m)"

definition bufferedAfter :: "(message \<Rightarrow> nat) \<Rightarrow> nat \<Rightarrow> frame list \<Rightarrow> nat" where
  "bufferedAfter textBytes buffered fs = buffered + sum_list (map (frameBytes textBytes) fs)"

text \<open>
  The values the counter takes during a transfer: what a run of \<open>onload\<close> reads, and what
  the counter stands at right after each frame is enqueued.
\<close>

datatype point = Observed nat | Enqueued frame nat

fun enqueue :: "(message \<Rightarrow> nat) \<Rightarrow> nat \<Rightarrow> frame list \<Rightarrow> point list" where
  "enqueue textBytes buffered [] = []"
| "enqueue textBytes buffered (fr # fs) =
     Enqueued fr (buffered + frameBytes textBytes fr) #
       enqueue textBytes (buffered + frameBytes textBytes fr) fs"

text \<open>
  The chunk loop of \<open>sendFileChunks\<close> on such a channel, on which nothing else is sent
  meanwhile. The environment gives, for each run of \<open>onload\<close>, whether the channel is open and
  how many of the buffered bytes the browser has transmitted since the run before (all of
  them, if the number is larger); the run reads what is left, and what it sends is added.
  \<open>buffered\<close> is what the counter stands at when the loop begins, the metadata included.
\<close>

fun countedLoop ::
  "(message \<Rightarrow> nat) \<Rightarrow> File \<Rightarrow> string option \<Rightarrow> nat \<Rightarrow> (bool \<times> nat) list \<Rightarrow> sendState \<Rightarrow>
   point list" where
  "countedLoop textBytes f checksum buffered [] st = []"
| "countedLoop textBytes f checksum buffered ((opn, drained) # env) st =
     (case onload f checksum (opn, buffered - drained) st of
        (fs, st1, None) \<Rightarrow>
          Observed (buffered - drained) # enqueue textBytes (buffered - drained) fs @
            countedLoop textBytes f checksum
              (bufferedAfter textBytes (buffered - drained) fs) env st1
      | (fs, st1, Some r) \<Rightarrow>
          Observed (buffered - drained) # enqueue textBytes (buffered - drained) fs)"

subsection \<open>The receiver\<close>

text \<open>
  The receiving side of a \<open>WebRTCManager\<close>. \<open>chunkMap\<close> is a \<open>Map\<close> from index to buffer
  (an association list, \<open>chunkMap.size\<close> its length), \<open>receivedChunks\<close> the list of the
  legacy protocol. \<open>sentMessages\<close> records what the receiver sends on the channel (the
  acknowledgements), \<open>errors\<close> the calls of \<open>onError\<close>, \<open>warnings\<close> the size mismatches written
  to the console, and \<open>receivedFiles\<close> the delivered files with the bytes of their blob.
  \<open>reading\<close> holds the Blobs that a \<open>FileReader\<close> of \<open>handleDataChannelMessage\<close> is reading, and
  \<open>uncaught\<close> the exceptions that have left an event handler.
\<close>

datatype transferError = Incomplete nat

datatype transferWarning = SizeMismatch nat nat

datatype exception = RangeError

record receiver =
  currentFile :: "fileInfo option"
  receivedChunks :: "byte list list"
  chunkMap :: "(nat \<times> byte list) list"
  receivedChunkIndices :: "nat set"
  expectedChunkCount :: nat
  bytesTransferred :: nat
  channelOpen :: bool
  sentMessages :: "message list"
  errors :: "transferError list"
  warnings :: "transferWarning list"
  receivedFiles :: "(fileInfo \<times> byte list) list"
  reading :: "byte list list"
  uncaught :: "exception list"

definition idle_receiver :: receiver where
  "idle_receiver = \<lparr>currentFile = None, receivedChunks = [], chunkMap = [],
     receivedChunkIndices = {}, expectedChunkCount = 0, bytesTransferred = 0,
     channelOpen = True, sentMessages = [], errors = [], warnings = [], receivedFiles = [],
     reading = [], uncaught = []\<rparr>"

definition sendChunkAck :: "nat \<Rightarrow> receiver \<Rightarrow> receiver" where
  "sendChunkAck index r =
     (if channelOpen r then r\<lparr>sentMessages := sentMessages r @ [ChunkAck index]\<rparr> else r)"

text \<open>The object \<open>{index, totalChunks, data}\<close> handed to \<open>handleChunkWithSequence\<close>.\<close>

record chunkData =
  index :: nat
  totalChunks :: nat
  data :: "byte list"

definition handleChunkWithSequence :: "chunkData \<Rightarrow> receiver \<Rightarrow> receiver" where
  "handleChunkWithSequence c r =
     (if currentFile r = None then r
      else if index c \<ge> totalChunks c then r
      else if index c \<in> receivedChunkIndices r then sendChunkAck (index c) r
      else sendChunkAck (index c)
             (r\<lparr>chunkMap := AList.update (index c) (data c) (chunkMap r),
                receivedChunkIndices := insert (index c) (receivedChunkIndices r),
                bytesTransferred := bytesTransferred r + length (data c)\<rparr>))"

definition addReceivedChunk :: "byte list \<Rightarrow> receiver \<Rightarrow> receiver" where
  "addReceivedChunk chunk r =
     (if currentFile r = None then r
      else r\<lparr>receivedChunks := receivedChunks r @ [chunk],
             bytesTransferred := bytesTransferred r + length chunk\<rparr>)"

text \<open>
  \<open>handleFileMetadata\<close> is only called with a message whose \<open>type\<close> is \<open>file-metadata\<close>, so
  \<open>metadata.mimeType || metadata.type\<close> is that string when \<open>mimeType\<close> is empty.
\<close>

definition handleFileMetadata :: "string \<Rightarrow> nat \<Rightarrow> string \<Rightarrow> nat \<Rightarrow> receiver \<Rightarrow> receiver" where
  "handleFileMetadata nm sz mimeType lm r =
     r\<lparr>currentFile := Some \<lparr>name = nm, fsize = sz,
          type = (if mimeType \<noteq> [] then mimeType else ''file-metadata''), lastModified = lm\<rparr>,
       receivedChunks := [], chunkMap := [], receivedChunkIndices := {},
       expectedChunkCount := ceilDiv sz CHUNK_SIZE, bytesTransferred := 0\<rparr>"

text \<open>
  \<open>Array.prototype.push\<close>: a JavaScript array has at most \<open>2 ^ 32 - 1\<close> elements, and \<open>push\<close>
  on an array of that length throws a \<open>RangeError\<close>.
\<close>

definition MAX_ARRAY_LENGTH :: nat where
  "MAX_ARRAY_LENGTH = 2 ^ 32 - 1"

definition push :: "'a list \<Rightarrow> 'a \<Rightarrow> exception + 'a list" where
  "push xs x = (if length xs < MAX_ARRAY_LENGTH then Inr (xs @ [x]) else Inl RangeError)"

text \<open>The loop of \<open>handleFileComplete\<close> that lists the missing indices.\<close>

function missingChunks_loop ::
  "receiver \<Rightarrow> nat \<Rightarrow> nat \<Rightarrow> nat list \<Rightarrow> exception + nat list" where
  "missingChunks_loop r expectedChunks i missingChunks =
     (if i < expectedChunks
      then (if i \<notin> receivedChunkIndices r \<and> map_of (chunkMap r) i = None
            then (case push missingChunks i of
                    Inl e \<Rightarrow> Inl e
                  | Inr missingChunks1 \<Rightarrow> missingChunks_loop r expectedChunks (i + 1) missingChunks1)
            else missingChunks_loop r expectedChunks (i + 1) missingChunks)
      else Inr missingChunks)"
  by pat_completeness auto
termination
  by (relation "measure (\<lambda>(r, expectedChunks, i, missingChunks). expectedChunks - i)") auto

declare missingChunks_loop.simps [simp del]

text \<open>
  The reassembly loop of the sequenced protocol: the stored chunk of each index, or a
  zero-filled \<open>ArrayBuffer\<close> of the placeholder size. It returns \<open>chunksToReassemble\<close> and
  \<open>totalSize\<close>.
\<close>

definition placeholderSize :: "nat \<Rightarrow> nat \<Rightarrow> nat \<Rightarrow> nat" where
  "placeholderSize declaredSize expectedChunks i =
     (if i = expectedChunks - 1
      then (if declaredSize mod CHUNK_SIZE \<noteq> 0 then declaredSize mod CHUNK_SIZE else CHUNK_SIZE)
      else CHUNK_SIZE)"

function reassemble_loop ::
  "(nat \<times> byte list) list \<Rightarrow> nat \<Rightarrow> nat \<Rightarrow> nat \<Rightarrow> byte list list \<Rightarrow> nat \<Rightarrow>
   exception + byte list list \<times> nat" where
  "reassemble_loop cm declaredSize expectedChunks i chunksToReassemble totalSize =
     (if i < expectedChunks
      then (case map_of cm i of
              Some chunk \<Rightarrow>
                (case push chunksToReassemble chunk of
                   Inl e \<Rightarrow> Inl e
                 | Inr chunks1 \<Rightarrow>
                     reassemble_loop cm declaredSize expectedChunks (i + 1) chunks1
                       (totalSize + length chunk))
            | None \<Rightarrow>
                (case push chunksToReassemble
                        (replicate (placeholderSize declaredSize expectedChunks i) 0) of
                   Inl e \<Rightarrow> Inl e
                 | Inr chunks1 \<Rightarrow>
                     reassemble_loop cm declaredSize expectedChunks (i + 1) chunks1
                       (totalSize + placeholderSize declaredSize expectedChunks i)))
      else Inr (chunksToReassemble, totalSize))"
  by pat_completeness auto
termination
  by (relation "measure (\<lambda>(cm, declaredSize, expectedChunks, i, acc, total). expectedChunks - i)") auto

declare reassemble_loop.simps [simp del]

text \<open>
  \<open>handleFileComplete\<close>, with the new state and the exception it throws, if any.
  \<open>completeData?.totalChunks || this.expectedChunkCount\<close> falls back when the field is
  missing or \<open>0\<close>. An exception of the first loop leaves the state as it was; one of the
  reassembly loop comes after \<open>onError\<close> has been called, and before the size warning, the
  delivery and the cleanup. The checksum is only compared and logged, after the file has
  been delivered: it has no part in the state.
\<close>

definition handleFileComplete ::
  "nat option \<Rightarrow> string option \<Rightarrow> receiver \<Rightarrow> receiver \<times> exception option" where
  "handleFileComplete completeTotal checksum r =
     (case currentFile r of
        None \<Rightarrow> (r, None)
      | Some cf \<Rightarrow>
          (let expectedChunks =
                 (case completeTotal of
                    Some n \<Rightarrow> if n \<noteq> 0 then n else expectedChunkCount r
                  | None \<Rightarrow> expectedChunkCount r);
               receivedChunkCount =
                 (if length (chunkMap r) > 0 then length (chunkMap r)
                  else length (receivedChunks r))
           in case (if receivedChunkCount < expectedChunks
                    then (case missingChunks_loop r expectedChunks 0 [] of
                            Inl e \<Rightarrow> Inl e
                          | Inr missingChunks \<Rightarrow>
                              Inr (errors r @ [Incomplete (length missingChunks)]))
                    else Inr (errors r)) of
                Inl e \<Rightarrow> (r, Some e)
              | Inr errors1 \<Rightarrow>
                  (case (if length (chunkMap r) > 0
                         then reassemble_loop (chunkMap r) (fsize cf) expectedChunks 0 [] 0
                         else Inr (receivedChunks r, sum_list (map length (receivedChunks r)))) of
                     Inl e \<Rightarrow> (r\<lparr>errors := errors1\<rparr>, Some e)
                   | Inr (chunksToReassemble, totalSize) \<Rightarrow>
                       (let warnings1 =
                              (if totalSize \<noteq> fsize cf
                               then warnings r @ [SizeMismatch (fsize cf) totalSize]
                               else warnings r);
                            blob = concat chunksToReassemble
                        in (r\<lparr>currentFile := None, receivedChunks := [], chunkMap := [],
                              receivedChunkIndices := {}, expectedChunkCount := 0,
                              errors := errors1, warnings := warnings1,
                              receivedFiles := receivedFiles r @ [(cf, blob)]\<rparr>, None)))))"

text \<open>
  What \<open>onmessage\<close> hands to \<open>handleDataChannelMessage\<close> as \<open>event.data\<close>: a string (parsed
  here), an \<open>ArrayBuffer\<close>, a \<open>Blob\<close>, a view on a buffer (given by the bytes of its
  \<open>buffer\<close>), or anything else. A binary message arrives as a \<open>Blob\<close> or as an \<open>ArrayBuffer\<close>
  according to the channel's \<open>binaryType\<close>, which the engine never sets.
\<close>

datatype channelData =
    StringData message
  | ArrayBufferData "byte list"
  | BlobData "byte list"
  | ViewData "byte list"
  | OtherData

text \<open>The part of \<open>handleDataChannelMessage\<close> under \<open>if (arrayBuffer)\<close>.\<close>

definition handleArrayBuffer :: "byte list \<Rightarrow> receiver \<Rightarrow> receiver" where
  "handleArrayBuffer arrayBuffer r =
     (if length arrayBuffer \<ge> 13 \<and> arrayBuffer ! 0 = 1
      then handleChunkWithSequence
             \<lparr>index = getUint32 arrayBuffer 1, totalChunks = getUint32 arrayBuffer 5,
              data = sliceBytes arrayBuffer 13 (13 + getUint32 arrayBuffer 9)\<rparr> r
      else addReceivedChunk arrayBuffer r)"

text \<open>
  \<open>handleDataChannelMessage\<close>. For a \<open>Blob\<close> it only starts a \<open>FileReader\<close> and returns; the
  bytes are handled when the reader's \<open>load\<close> event runs, in a later task.
\<close>

definition handleDataChannelMessage ::
  "receiver \<Rightarrow> channelData \<Rightarrow> receiver \<times> exception option" where
  "handleDataChannelMessage r d =
     (case d of
        ArrayBufferData arrayBuffer \<Rightarrow> (handleArrayBuffer arrayBuffer r, None)
      | BlobData blob \<Rightarrow> (r\<lparr>reading := reading r @ [blob]\<rparr>, None)
      | ViewData buffer \<Rightarrow> (handleArrayBuffer buffer r, None)
      | StringData (FileMetadata nm sz mimeType lm) \<Rightarrow> (handleFileMetadata nm sz mimeType lm r, None)
      | StringData (FileComplete nm completeTotal checksum) \<Rightarrow>
          handleFileComplete completeTotal checksum r
      | StringData (ChunkAck _) \<Rightarrow> (r, None)
      | StringData OtherMessage \<Rightarrow> (r, None)
      | OtherData \<Rightarrow> (r, None))"

subsection \<open>The receiver's event loop\<close>

text \<open>
  The tasks that reach the receiver: a message event of the channel, and the \<open>load\<close> or
  \<open>error\<close> event of the \<open>k\<close>-th reader in flight. \<open>reader.onload\<close> passes the bytes to
  \<open>handleDataChannelMessage\<close> again, \<open>reader.onerror\<close> only logs. Nothing catches an exception
  of \<open>handleDataChannelMessage\<close>: it ends the task, and the state is as the handler left it.
\<close>

datatype task = MessageEvent channelData | LoadEvent nat | ReadErrorEvent nat

definition settle :: "receiver \<times> exception option \<Rightarrow> receiver" where
  "settle res =
     (case res of (r, None) \<Rightarrow> r | (r, Some e) \<Rightarrow> r\<lparr>uncaught := uncaught r @ [e]\<rparr>)"

definition removeAt :: "nat \<Rightarrow> 'a list \<Rightarrow> 'a list" where
  "removeAt k xs = take k xs @ drop (Suc k) xs"

fun runTask :: "receiver \<Rightarrow> task \<Rightarrow> receiver" where
  "runTask r (MessageEvent d) = settle (handleDataChannelMessage r d)"
| "runTask r (LoadEvent k) =
     (if k < length (reading r)
      then settle (handleDataChannelMessage (r\<lparr>reading := removeAt k (reading r)\<rparr>)
                     (ArrayBufferData (reading r ! k)))
      else r)"
| "runTask r (ReadErrorEvent k) =
     (if k < length (reading r) then r\<lparr>reading := removeAt k (reading r)\<rparr> else r)"

definition runTasks :: "receiver \<Rightarrow> task list \<Rightarrow> receiver" where
  "runTasks r ts = foldl runTask r ts"

text \<open>
  How the frames of the sender reach the receiver. \<open>messageEvents\<close> are the message events
  of the frames in order; \<open>receiveAll\<close> handles the frames of a channel that delivers
  \<open>ArrayBuffer\<close>s.
\<close>

datatype binaryType = AsBlob | AsArrayBuffer

definition deliver :: "binaryType \<Rightarrow> frame \<Rightarrow> channelData" where
  "deliver bt fr =
     (case fr of
        Text m \<Rightarrow> StringData m
      | Binary b \<Rightarrow> (case bt of AsBlob \<Rightarrow> BlobData b | AsArrayBuffer \<Rightarrow> ArrayBufferData b))"

definition messageEvents :: "binaryType \<Rightarrow> frame list \<Rightarrow> task list" where
  "messageEvents bt frames = map (\<lambda>fr. MessageEvent (deliver bt fr)) frames"

definition receiveAll :: "receiver \<Rightarrow> frame list \<Rightarrow> receiver" where
  "receiveAll r frames = runTasks r (messageEvents AsArrayBuffer frames)"

subsection \<open>Frames of a file, runs and scenarios of the engine\<close>

text \<open>
  The chunks of a file and the frames a completed transfer consists of: the metadata, one
  chunk frame for each index below \<open>max 1 chunkCount\<close> (the first read is not guarded by the
  size, so an empty file still has one), and \<open>file-complete\<close>. \<open>infoOf\<close> is what the receiver
  keeps of the attributes of a file: its \<open>type\<close> is \<open>mimeType || type\<close>.
\<close>

definition chunkCount :: "File \<Rightarrow> nat" where
  "chunkCount f = ceilDiv (fileSize f) CHUNK_SIZE"

definition chunkAt :: "File \<Rightarrow> nat \<Rightarrow> byte list" where
  "chunkAt f k = sliceBytes (content f) (k * CHUNK_SIZE) (k * CHUNK_SIZE + CHUNK_SIZE)"

definition chunkFrame :: "File \<Rightarrow> nat \<Rightarrow> frame" where
  "chunkFrame f k = Binary (encodeChunk k (ceilDiv (fileSize f) CHUNK_SIZE) (chunkAt f k))"

definition metadataFrame :: "File \<Rightarrow> frame" where
  "metadataFrame f = Text (FileMetadata (fileName f) (fileSize f) (fileType f) (fileLastModified f))"

definition completeFrame :: "File \<Rightarrow> string option \<Rightarrow> frame" where
  "completeFrame f checksum =
     Text (FileComplete (fileName f) (Some (ceilDiv (fileSize f) CHUNK_SIZE)) checksum)"

definition expectedFrames :: "File \<Rightarrow> string option \<Rightarrow> frame list" where
  "expectedFrames f checksum =
     metadataFrame f # map (chunkFrame f) [0..<max 1 (chunkCount f)] @ [completeFrame f checksum]"

definition infoOf :: "File \<Rightarrow> fileInfo" where
  "infoOf f = \<lparr>name = fileName f, fsize = fileSize f,
               type = (if fileType f \<noteq> [] then fileType f else ''file-metadata''),
               lastModified = fileLastModified f\<rparr>"

text \<open>
  An observation of the channel at which \<open>onload\<close> sends, a channel that shows nothing
  buffered \<open>k\<close> times, and the first state of \<open>sendFileChunks\<close>.
\<close>

definition ready :: "bool \<times> nat \<Rightarrow> bool" where
  "ready obs = (fst obs \<and> snd obs \<le> BUFFER_THRESHOLD)"


definition initialSendState :: sendState where
  "initialSendState = \<lparr>offset = 0, chunkIndex = 0, bytesSent = 0\<rparr>"

text \<open>
  What the runs of \<open>onload\<close> read from the counter in \<open>countedLoop\<close>, and the frames that were
  enqueued there. \<open>hundredBytes\<close> is a channel on which every string message counts 100
  bytes.
\<close>

fun observations ::
  "(message \<Rightarrow> nat) \<Rightarrow> File \<Rightarrow> string option \<Rightarrow> nat \<Rightarrow> (bool \<times> nat) list \<Rightarrow> sendState \<Rightarrow>
   (bool \<times> nat) list" where
  "observations textBytes f checksum buffered [] st = []"
| "observations textBytes f checksum buffered ((opn, drained) # env) st =
     (case onload f checksum (opn, buffered - drained) st of
        (fs, st1, None) \<Rightarrow>
          (opn, buffered - drained) #
            observations textBytes f checksum
              (bufferedAfter textBytes (buffered - drained) fs) env st1
      | (fs, st1, Some r) \<Rightarrow> [(opn, buffered - drained)])"

fun enqueuedFrames :: "point list \<Rightarrow> frame list" where
  "enqueuedFrames [] = []"
| "enqueuedFrames (Observed b # ps) = enqueuedFrames ps"
| "enqueuedFrames (Enqueued fr c # ps) = fr # enqueuedFrames ps"

definition hundredBytes :: "message \<Rightarrow> nat" where
  "hundredBytes m = 100"





text \<open>
  The piece of the reassembled file at index \<open>i\<close>: the stored chunk or the placeholder.
  \<open>storedBytes\<close> is the sum of the lengths of the stored chunks, \<open>expectedChunks\<close> the count
  \<open>handleFileComplete\<close> works with.
\<close>

definition piece :: "(nat \<times> byte list) list \<Rightarrow> nat \<Rightarrow> nat \<Rightarrow> nat \<Rightarrow> byte list" where
  "piece cm declaredSize expectedChunks i =
     (case map_of cm i of Some chunk \<Rightarrow> chunk
      | None \<Rightarrow> replicate (placeholderSize declaredSize expectedChunks i) 0)"

definition storedBytes :: "receiver \<Rightarrow> nat" where
  "storedBytes r = sum_list (map (\<lambda>e. length (snd e)) (chunkMap r))"

definition expectedChunks :: "nat option \<Rightarrow> receiver \<Rightarrow> nat" where
  "expectedChunks completeTotal r =
     (case completeTotal of Some n \<Rightarrow> if n \<noteq> 0 then n else expectedChunkCount r
      | None \<Rightarrow> expectedChunkCount r)"

text \<open>
  A sequence of parsed chunk frames handed to the receiver, the same sequence without the
  frames whose index has been stored before them, and a receiver state with the
  acknowledgements it sent left out.
\<close>

definition receiveChunks :: "receiver \<Rightarrow> chunkData list \<Rightarrow> receiver" where
  "receiveChunks r cs = foldl (\<lambda>r c. handleChunkWithSequence c r) r cs"

fun dropDuplicates :: "nat set \<Rightarrow> chunkData list \<Rightarrow> chunkData list" where
  "dropDuplicates seen [] = []"
| "dropDuplicates seen (c # cs) =
     (if index c \<in> seen then dropDuplicates seen cs
      else c # dropDuplicates (if index c < totalChunks c then insert (index c) seen else seen) cs)"

definition withoutAcks :: "receiver \<Rightarrow> receiver" where
  "withoutAcks r = r\<lparr>sentMessages := []\<rparr>"

text \<open>
  The states a receiver can be in: it starts idle, runs any task, its channel may open and
  close at any time, and the sending side of the same object may write the shared byte
  counter. In all of them the keys of \<open>chunkMap\<close> are distinct and are the
  members of \<open>receivedChunkIndices\<close>, and without a current file nothing is stored.
\<close>

inductive receiving :: "receiver \<Rightarrow> bool" where
  receiving_idle: "receiving (idle_receiver\<lparr>channelOpen := opn\<rparr>)"
| receiving_task: "receiving r \<Longrightarrow> receiving (runTask r t)"
| receiving_channel: "receiving r \<Longrightarrow> receiving (r\<lparr>channelOpen := opn\<rparr>)"
| receiving_stats: "receiving r \<Longrightarrow> receiving (r\<lparr>bytesTransferred := n\<rparr>)"

definition recv_inv :: "receiver \<Rightarrow> bool" where
  "recv_inv r = (distinct (map fst (chunkMap r)) \<and> fst ` set (chunkMap r) = receivedChunkIndices r \<and>
     (currentFile r = None \<longrightarrow> chunkMap r = []))"

text \<open>
  Concrete files and receiver states. \<open>huge_file\<close> has \<open>2 ^ 48\<close> bytes, that is
  \<open>2 ^ 32\<close> chunks.
\<close>

definition zeros :: "nat \<Rightarrow> byte list" where
  "zeros k = replicate k 0"

definition small_file :: File where
  "small_file = \<lparr>fileName = ''a.bin'', content = [7, 8, 9], fileType = ''bin'',
     fileLastModified = 42\<rparr>"

definition empty_file :: File where
  "empty_file = \<lparr>fileName = ''empty'', content = [], fileType = '''', fileLastModified = 0\<rparr>"

definition two_chunk_file :: File where
  "two_chunk_file = \<lparr>fileName = ''two'', content = zeros 65537, fileType = ''bin'',
     fileLastModified = 0\<rparr>"


definition first_chunk_state :: receiver where
  "first_chunk_state = receiveAll idle_receiver
     [Text (FileMetadata ''a.bin'' 3 ''bin'' 42),
      Binary [1, 0, 0, 0, 0, 1, 0, 0, 0, 3, 0, 0, 0, 7, 8, 9]]"

definition duplicate_chunk :: chunkData where
  "duplicate_chunk = \<lparr>index = 0, totalChunks = 1, data = [7, 8, 9]\<rparr>"



section \<open>Properties of the broker\<close>

subsection \<open>Frame conditions of the helpers\<close>

lemma ws_send_fields [simp]:
  "rooms (ws_send w m s) = rooms s"
  "readyStates (ws_send w m s) = readyStates s"
  "currentRoom (ws_send w m s) = currentRoom s"
  "peerId (ws_send w m s) = peerId s"
  "nextWs (ws_send w m s) = nextWs s"
  "sent (ws_send w m s) = sent s @ [(w, m)]"
  by (simp_all add: ws_send_def)

lemma notifyJoined_fields [simp]:
  "rooms (notifyJoined rid rm ps i s) = rooms s"
  "readyStates (notifyJoined rid rm ps i s) = readyStates s"
  "currentRoom (notifyJoined rid rm ps i s) = currentRoom s"
  "peerId (notifyJoined rid rm ps i s) = peerId s"
  "nextWs (notifyJoined rid rm ps i s) = nextWs s"
  by (induction ps arbitrary: i s; simp)+

lemma notifyJoined_sent:
  "sent (notifyJoined rid rm ps i s) =
     sent s @ map (joinedMsg rid rm)
       (filter (\<lambda>(j, p). readyStates s p = OPEN) (List.enumerate i ps))"
  by (induction ps arbitrary: i s) (simp_all add: joinedMsg_def)

lemma forwardToOthers_fields [simp]:
  "rooms (forwardToOthers ps w d s) = rooms s"
  "readyStates (forwardToOthers ps w d s) = readyStates s"
  "currentRoom (forwardToOthers ps w d s) = currentRoom s"
  "peerId (forwardToOthers ps w d s) = peerId s"
  "nextWs (forwardToOthers ps w d s) = nextWs s"
  by (induction ps arbitrary: s; simp)+

lemma notifyDisconnected_fields [simp]:
  "rooms (notifyDisconnected ps s) = rooms s"
  "readyStates (notifyDisconnected ps s) = readyStates s"
  "currentRoom (notifyDisconnected ps s) = currentRoom s"
  "peerId (notifyDisconnected ps s) = peerId s"
  "nextWs (notifyDisconnected ps s) = nextWs s"
  by (induction ps arbitrary: s; simp)+

lemma expirePeers_fields [simp]:
  "rooms (expirePeers ps s) = rooms s"
  "currentRoom (expirePeers ps s) = currentRoom s"
  "peerId (expirePeers ps s) = peerId s"
  "nextWs (expirePeers ps s) = nextWs s"
  by (induction ps arbitrary: s; simp)+

lemma setRoom_fields [simp]:
  "rooms (setRoom rid rm s) = AList.update rid rm (rooms s)"
  "readyStates (setRoom rid rm s) = readyStates s"
  "currentRoom (setRoom rid rm s) = currentRoom s"
  "peerId (setRoom rid rm s) = peerId s"
  "nextWs (setRoom rid rm s) = nextWs s"
  "sent (setRoom rid rm s) = sent s"
  by (simp_all add: setRoom_def)

lemma lookupRoom_Some:
  "lookupRoom s cr = Some (rid, rm) \<longleftrightarrow> cr = Some rid \<and> rid \<noteq> [] \<and> map_of (rooms s) rid = Some rm"
  by (auto simp: lookupRoom_def split: option.splits)

lemma update_fresh: "k \<notin> fst ` set al \<Longrightarrow> AList.update k v al = al @ [(k, v)]"
  by (induction al) auto

lemma newMsgs_append: "sent s' = sent s @ ms \<Longrightarrow> newMsgs s s' = ms"
  by (simp add: newMsgs_def)

lemma newMsgs_same: "sent s' = sent s \<Longrightarrow> newMsgs s s' = []"
  by (simp add: newMsgs_def)

subsection \<open>Room codes\<close>

lemma generateRoomCode_loop_length:
  "length (generateRoomCode_loop rnd i code) = length code + (6 - i)"
proof (induction rnd i code rule: generateRoomCode_loop.induct)
  case (1 rnd i code)
  have "unat (rnd i) < 32" using unsigned_less [of "rnd i"] by simp
  then have len: "length (charAt chars (unat (rnd i))) = 1"
    by (simp add: charAt_def chars_def)
  show ?case
  proof (cases "i < 6")
    case True
    then show ?thesis using "1.IH" len
      by (subst generateRoomCode_loop.simps) simp
  next
    case False
    then show ?thesis by (subst generateRoomCode_loop.simps) simp
  qed
qed

lemma generateRoomCode_loop_set:
  "set (generateRoomCode_loop rnd i code) \<subseteq> set code \<union> set chars"
proof (induction rnd i code rule: generateRoomCode_loop.induct)
  case (1 rnd i code)
  have "set (charAt chars (unat (rnd i))) \<subseteq> set chars"
    by (auto simp: charAt_def)
  then show ?case using "1.IH"
    by (subst generateRoomCode_loop.simps) auto
qed

lemma generateRoomCode_length: "length (generateRoomCode rnd) = 6"
  by (simp add: generateRoomCode_def generateRoomCode_loop_length)

lemma generateRoomCode_set: "set (generateRoomCode rnd) \<subseteq> set chars"
  using generateRoomCode_loop_set [of rnd 0 "[]"]
  by (simp add: generateRoomCode_def)

lemma zero_code: "generateRoomCode zero_draws = ''AAAAAA''"
  by (simp add: generateRoomCode_def generateRoomCode_loop.simps zero_draws_def charAt_def chars_def)

subsection \<open>The room table invariant\<close>

lemma rooms_okD:
  "rooms_ok cfg s \<Longrightarrow> map_of (rooms s) rid = Some rm \<Longrightarrow> room_ok cfg rid rm"
  unfolding rooms_ok_def by blast

lemma rooms_ok_update:
  assumes "rooms_ok cfg s" and "room_ok cfg rid rm" and "rooms s' = AList.update rid rm (rooms s)"
  shows "rooms_ok cfg s'"
proof -
  have "distinct (map fst (rooms s'))"
    using assms(1,3) unfolding rooms_ok_def by (simp add: distinct_update)
  moreover have "room_ok cfg rid' rm'" if "map_of (rooms s') rid' = Some rm'" for rid' rm'
    using that assms rooms_okD [of cfg s rid' rm']
    by (cases "rid' = rid") (simp_all add: update_conv')
  ultimately show ?thesis unfolding rooms_ok_def by blast
qed

lemma rooms_ok_delete:
  assumes "rooms_ok cfg s" and "rooms s' = AList.delete rid (rooms s)"
  shows "rooms_ok cfg s'"
proof -
  have "distinct (map fst (rooms s'))"
    using assms unfolding rooms_ok_def by (simp add: distinct_delete)
  moreover have "room_ok cfg rid' rm'" if "map_of (rooms s') rid' = Some rm'" for rid' rm'
    using that assms rooms_okD [of cfg s rid' rm']
    by (cases "rid' = rid") (simp_all add: delete_conv')
  ultimately show ?thesis unfolding rooms_ok_def by blast
qed

lemma rooms_ok_same:
  "rooms_ok cfg s \<Longrightarrow> rooms s' = rooms s \<Longrightarrow> rooms_ok cfg s'"
  by (simp add: rooms_ok_def)

lemma handleJoin_ok:
  assumes "rooms_ok cfg s"
  shows "rooms_ok cfg (handleJoin cfg now rnd w roomId createNew s)"
proof (cases createNew)
  case True
  have "room_ok cfg (generateRoomCode rnd) \<lparr>peers = [w], createdAt = now, peerIds = [(w, ''peer1'')],
                     pendingOffer = Absent, pendingAnswer = Absent\<rparr>"
    by (simp add: room_ok_def generateRoomCode_length)
  then show ?thesis using True assms
    by (auto simp: handleJoin_def Let_def intro: rooms_ok_update)
next
  case False
  show ?thesis
  proof (cases "lookupRoom s roomId")
    case None
    then show ?thesis using False assms
      by (auto simp: handleJoin_def intro: rooms_ok_same)
  next
    case (Some p)
    obtain rid rm where p: "p = (rid, rm)" by (cases p)
    from Some p have look: "map_of (rooms s) rid = Some rm" by (simp add: lookupRoom_Some)
    show ?thesis
    proof (cases "length (peers rm) \<ge> MAX_ROOM_SIZE cfg")
      case True
      then show ?thesis using False Some p assms
        by (auto simp: handleJoin_def intro: rooms_ok_same)
    next
      case full: False
      let ?rm1 = "rm\<lparr>peers := peers rm @ [w], peerIds := AList.update w ''peer2'' (peerIds rm)\<rparr>"
      have ok: "room_ok cfg rid rm" by (rule rooms_okD [OF assms look])
      have ok1: "room_ok cfg rid ?rm1" using full ok by (simp add: room_ok_def)
      then have ok2: "room_ok cfg rid (?rm1\<lparr>pendingOffer := Absent\<rparr>)" by (simp add: room_ok_def)
      have a: "rooms_ok cfg (s\<lparr>rooms := AList.update rid ?rm1 (rooms s)\<rparr>)"
        by (rule rooms_ok_update [OF assms ok1]) simp
      have b: "rooms_ok cfg (s\<lparr>rooms := AList.update rid (?rm1\<lparr>pendingOffer := Absent\<rparr>) (rooms s)\<rparr>)"
        by (rule rooms_ok_update [OF assms ok2]) simp
      show ?thesis
      proof (cases "truthy (pendingOffer rm) \<and> readyStates s w = OPEN")
        case True
        then show ?thesis using False Some p full
          by (auto simp: handleJoin_def Let_def intro!: rooms_ok_same [OF b])
      next
        case no: False
        then show ?thesis using False Some p full
          by (auto simp: handleJoin_def Let_def intro!: rooms_ok_same [OF a])
      qed
    qed
  qed
qed

lemma handleSignaling_ok:
  assumes "rooms_ok cfg s"
  shows "rooms_ok cfg (handleSignaling w frm s)"
proof (cases "lookupRoom s (currentRoom s w)")
  case None
  then show ?thesis using assms by (simp add: handleSignaling_def)
next
  case (Some p)
  obtain rid rm where p: "p = (rid, rm)" by (cases p)
  from Some p have look: "map_of (rooms s) rid = Some rm" by (simp add: lookupRoom_Some)
  have ok: "room_ok cfg rid rm" by (rule rooms_okD [OF assms look])
  have a: "rooms_ok cfg (setRoom rid (rm\<lparr>pendingOffer := x\<rparr>) s)" for x
    by (rule rooms_ok_update [OF assms, where rm = "rm\<lparr>pendingOffer := x\<rparr>" and rid = rid]) (use ok in \<open>simp_all add: room_ok_def\<close>)
  have b: "rooms_ok cfg (setRoom rid (rm\<lparr>pendingAnswer := x\<rparr>) s)" for x
    by (rule rooms_ok_update [OF assms, where rm = "rm\<lparr>pendingAnswer := x\<rparr>" and rid = rid]) (use ok in \<open>simp_all add: room_ok_def\<close>)
  show ?thesis
    using Some p a b assms
    by (cases frm) (auto simp: handleSignaling_def intro: rooms_ok_same)
qed

lemma onMessage_ok:
  "rooms_ok cfg s \<Longrightarrow> rooms_ok cfg (onMessage cfg now rnd w frm s)"
  by (cases frm)
     (auto simp: onMessage_def broadcastToRoom_def handleJoin_ok handleSignaling_ok
           intro: rooms_ok_same split: option.splits)

lemma onClose_ok:
  assumes "rooms_ok cfg s"
  shows "rooms_ok cfg (onClose w s)"
proof (cases "lookupRoom s (currentRoom s w)")
  case None
  then show ?thesis using assms by (simp add: onClose_def)
next
  case (Some p)
  obtain rid rm where p: "p = (rid, rm)" by (cases p)
  from Some p have look: "map_of (rooms s) rid = Some rm" by (simp add: lookupRoom_Some)
  have ok: "room_ok cfg rid rm" by (rule rooms_okD [OF assms look])
  let ?rm1 = "rm\<lparr>peers := filter (\<lambda>p. p \<noteq> w) (peers rm)\<rparr>"
  have len: "length (filter (\<lambda>p. p \<noteq> w) (peers rm)) \<le> length (peers rm)" by simp
  show ?thesis
  proof (cases "filter (\<lambda>p. p \<noteq> w) (peers rm) = []")
    case True
    have "rooms_ok cfg (s\<lparr>rooms := AList.delete rid (rooms s)\<rparr>)"
      by (rule rooms_ok_delete [OF assms]) simp
    then show ?thesis using Some p True
      by (auto simp: onClose_def Let_def delete_update_same intro: rooms_ok_same)
  next
    case False
    have "length (filter (\<lambda>p. p \<noteq> w) (peers rm)) \<le> max 1 (MAX_ROOM_SIZE cfg)"
      using ok unfolding room_ok_def by (rule_tac order_trans [OF len]) blast
    then have "room_ok cfg rid ?rm1" using False ok by (simp add: room_ok_def)
    then have "rooms_ok cfg (setRoom rid ?rm1 s)"
      by (rule rooms_ok_update [OF assms]) simp
    then show ?thesis using Some p False
      by (auto simp: onClose_def Let_def intro: rooms_ok_same)
  qed
qed

lemma sweepRooms_ok:
  "rooms_ok cfg s \<Longrightarrow> rooms_ok cfg (sweepRooms cfg now l s)"
proof (induction l arbitrary: s)
  case Nil
  then show ?case by simp
next
  case (Cons e l)
  obtain rid rm where e: "e = (rid, rm)" by (cases e)
  have "rooms_ok cfg ((expirePeers (peers rm) s)\<lparr>rooms := AList.delete rid (rooms (expirePeers (peers rm) s))\<rparr>)"
    by (rule rooms_ok_delete [OF Cons.prems]) simp
  then show ?case using Cons e by (simp add: Let_def)
qed

lemma step_ok: "rooms_ok cfg s \<Longrightarrow> rooms_ok cfg (step cfg s e)"
  by (cases e) (auto simp: onConnection_def Let_def onMessage_ok sweep_def sweepRooms_ok
                     intro: rooms_ok_same intro!: onClose_ok)

lemma reachable_ok: "reachable cfg s \<Longrightarrow> rooms_ok cfg s"
  by (induction rule: reachable.induct) (simp_all add: step_ok, simp add: rooms_ok_def init_broker_def)

lemma reachable_run: "reachable cfg s \<Longrightarrow> reachable cfg (run cfg s evs)"
  unfolding run_def by (induction evs arbitrary: s) (simp_all add: reach_step)

subsection \<open>Evaluated runs\<close>

lemma first_room_rooms: "rooms first_room_state = [(''AAAAAA'',
       \<lparr>peers = [0], createdAt = 1000, peerIds = [(0, ''peer1'')],
        pendingOffer = Absent, pendingAnswer = Absent\<rparr>)]"
  by (simp add: first_room_state_def run_def init_broker_def onConnection_def
        onMessage_def handleJoin_def zero_code Let_def)

lemma first_room_eval:
  "first_room_state = \<lparr>rooms = [(''AAAAAA'',
       \<lparr>peers = [0], createdAt = 1000, peerIds = [(0, ''peer1'')],
        pendingOffer = Absent, pendingAnswer = Absent\<rparr>)],
      readyStates = (\<lambda>_. CLOSED)(0 := OPEN, 1 := OPEN),
      currentRoom = (\<lambda>_. None)(0 := Some ''AAAAAA'', 1 := None),
      peerId = (\<lambda>_. None)(0 := Some ''peer1'', 1 := None),
      sent = [(0, Connected), (1, Connected),
              (0, Joined ''AAAAAA'' (Some ''peer1'') Sender None)],
      nextWs = 2\<rparr>"
  by (simp add: first_room_state_def run_def init_broker_def onConnection_def
        onMessage_def handleJoin_def zero_code Let_def ws_send_def fun_eq_iff)

lemma two_peers_rooms: "rooms two_peers_state = [(''AAAAAA'', two_peers_room)]"
  by (simp add: two_peers_state_def two_peers_events_def run_def init_broker_def onConnection_def
        onMessage_def handleJoin_def zero_code lookupRoom_def Let_def default_config_def
        two_peers_room_def)

lemma two_peers_eval:
  "two_peers_state = \<lparr>rooms = [(''AAAAAA'', two_peers_room)],
      readyStates = (\<lambda>_. CLOSED)(0 := OPEN, 1 := OPEN, 2 := OPEN),
      currentRoom = (\<lambda>_. None)(0 := Some ''AAAAAA'', 1 := Some ''AAAAAA'', 2 := None),
      peerId = (\<lambda>_. None)(0 := Some ''peer1'', 1 := Some ''peer2'', 2 := None),
      sent = [(0, Connected), (1, Connected), (2, Connected),
              (0, Joined ''AAAAAA'' (Some ''peer1'') Sender None),
              (0, Joined ''AAAAAA'' (Some ''peer1'') Sender (Some 2)),
              (1, Joined ''AAAAAA'' (Some ''peer2'') Receiver (Some 2))],
      nextWs = 3\<rparr>"
  by (simp add: two_peers_state_def two_peers_events_def run_def init_broker_def onConnection_def
        onMessage_def handleJoin_def zero_code lookupRoom_def Let_def default_config_def
        two_peers_room_def truthy_def ws_send_def fun_eq_iff)

subsection \<open>Capacity\<close>

text \<open>
  C3. In every reachable state of a broker whose \<open>MAX_ROOM_SIZE\<close> is 2, every room of the
  table has at most two peers; and a join that names a room with two peers only adds an
  \<open>error\<close> message for the joining socket to the trace: the room table (so the room's peer
  list), the socket's ready state and the closure variables are unchanged.
\<close>

theorem room_capacity:
  assumes "reachable cfg s" and "MAX_ROOM_SIZE cfg = 2" and "(rid, rm) \<in> set (rooms s)"
  shows "length (peers rm) \<le> 2 \<and>
         (length (peers rm) = 2 \<longrightarrow>
            handleJoin cfg now rnd w (Some rid) False s = s\<lparr>sent := sent s @ [(w, Error RoomFull)]\<rparr>)"
proof -
  have ok: "rooms_ok cfg s" by (rule reachable_ok [OF assms(1)])
  then have look: "map_of (rooms s) rid = Some rm"
    using assms(3) by (simp add: rooms_ok_def)
  have rok: "room_ok cfg rid rm" by (rule rooms_okD [OF ok look])
  then have le: "length (peers rm) \<le> 2"
    using assms(2) by (simp add: room_ok_def)
  have "length rid = 6" using rok by (simp add: room_ok_def)
  then have "rid \<noteq> []" by auto
  then have "lookupRoom s (Some rid) = Some (rid, rm)"
    using look by (simp add: lookupRoom_Some)
  then show ?thesis using le assms(2)
    by (simp add: handleJoin_def ws_send_def)
qed

text \<open>
  The state after a creator and a joiner have attached is reachable and its room is full: a
  third socket's join is answered with the error and changes nothing else.
\<close>

theorem room_capacity_witness:
  "length (peers two_peers_room) \<le> 2 \<and>
   handleJoin default_config 3000 zero_draws 2 (Some ''AAAAAA'') False two_peers_state =
     two_peers_state\<lparr>sent := sent two_peers_state @ [(2, Error RoomFull)]\<rparr>"
proof -
  have r: "reachable default_config two_peers_state"
    unfolding two_peers_state_def by (rule reachable_run [OF reach_init])
  have m: "MAX_ROOM_SIZE default_config = 2" by (simp add: default_config_def)
  have i: "(''AAAAAA'', two_peers_room) \<in> set (rooms two_peers_state)"
    by (simp add: two_peers_rooms)
  show ?thesis
    using room_capacity [OF r m i, of 3000 zero_draws 2] by (simp add: two_peers_room_def)
qed

subsection \<open>Handshake ordering\<close>

text \<open>
  An event that does not touch a room leaves its entry in the table as it is, unless it is
  an offer; an offer from a socket of a one-peer room replaces the pending offer.
\<close>

lemma handleJoin_other_room:
  assumes "\<not> (if createNew then generateRoomCode rnd = rid else roomId = Some rid)"
  shows "map_of (rooms (handleJoin cfg now rnd w roomId createNew s)) rid = map_of (rooms s) rid"
proof (cases createNew)
  case True
  then show ?thesis using assms by (simp add: handleJoin_def Let_def update_conv')
next
  case False
  show ?thesis
  proof (cases "lookupRoom s roomId")
    case None
    then show ?thesis using False by (simp add: handleJoin_def)
  next
    case (Some a)
    obtain rid' rm' where a: "a = (rid', rm')" by (cases a)
    have "roomId = Some rid'" using Some a by (simp add: lookupRoom_Some)
    then have ne: "rid' \<noteq> rid" using assms False by auto
    show ?thesis using False Some a ne
      by (simp add: handleJoin_def Let_def update_conv')
  qed
qed

lemma handleSignaling_other_room:
  assumes "currentRoom s w \<noteq> Some rid \<or> (\<forall>p. frm \<noteq> Offer p \<and> frm \<noteq> Answer p)"
  shows "map_of (rooms (handleSignaling w frm s)) rid = map_of (rooms s) rid"
proof (cases "lookupRoom s (currentRoom s w)")
  case None
  then show ?thesis by (simp add: handleSignaling_def)
next
  case (Some a)
  obtain rid' rm' where a: "a = (rid', rm')" by (cases a)
  have cr: "currentRoom s w = Some rid'" using Some a by (simp add: lookupRoom_Some)
  show ?thesis using Some a cr assms
    by (cases frm) (auto simp: handleSignaling_def update_conv')
qed

lemma broadcastToRoom_rooms [simp]: "rooms (broadcastToRoom cr w frm s) = rooms s"
  by (simp add: broadcastToRoom_def split: option.splits)

lemma onClose_other_room:
  assumes "currentRoom s w \<noteq> Some rid"
  shows "map_of (rooms (onClose w s)) rid = map_of (rooms s) rid"
proof (cases "lookupRoom s (currentRoom s w)")
  case None
  then show ?thesis by (simp add: onClose_def)
next
  case (Some a)
  obtain rid' rm' where a: "a = (rid', rm')" by (cases a)
  have "currentRoom s w = Some rid'" using Some a by (simp add: lookupRoom_Some)
  then have ne: "rid' \<noteq> rid" using assms by auto
  show ?thesis using Some a ne
    by (simp add: onClose_def Let_def update_conv' delete_conv')
qed

lemma sweepRooms_other_room:
  assumes "\<not> list_ex (\<lambda>(roomId, rm). roomId = rid \<and> now - createdAt rm > ROOM_EXPIRY cfg) l"
  shows "map_of (rooms (sweepRooms cfg now l s)) rid = map_of (rooms s) rid"
  using assms
proof (induction l arbitrary: s)
  case Nil
  then show ?case by simp
next
  case (Cons a l)
  obtain roomId rm where a: "a = (roomId, rm)" by (cases a)
  have rest: "\<not> list_ex (\<lambda>(roomId, rm). roomId = rid \<and> now - createdAt rm > ROOM_EXPIRY cfg) l"
    and here: "\<not> (roomId = rid \<and> now - createdAt rm > ROOM_EXPIRY cfg)"
    using Cons.prems a by simp_all
  show ?case
    using Cons.IH [OF rest] here a
    by (auto simp: Let_def delete_conv')
qed

lemma step_untouched:
  assumes "\<not> touches cfg rid s e" and "\<forall>w p now rnd. e \<noteq> Message w (Offer p) now rnd"
  shows "map_of (rooms (step cfg s e)) rid = map_of (rooms s) rid"
proof (cases e)
  case Connection
  then show ?thesis by (simp add: onConnection_def Let_def)
next
  case (Message w frm now rnd)
  show ?thesis
  proof (cases frm)
    case (Join createNew roomId)
    then show ?thesis using assms Message
      by (simp add: onMessage_def handleJoin_other_room)
  next
    case (Offer p)
    then show ?thesis using assms(2) Message by simp
  next
    case (Answer p)
    then show ?thesis using assms Message
      by (simp add: onMessage_def handleSignaling_other_room)
  next
    case (IceCandidate p)
    then show ?thesis using Message
      by (simp add: onMessage_def handleSignaling_other_room)
  qed (simp_all add: Message onMessage_def)
next
  case (Down w)
  then show ?thesis by simp
next
  case (Close w)
  have "currentRoom (s\<lparr>readyStates := (readyStates s)(w := CLOSED)\<rparr>) w \<noteq> Some rid"
    using assms Close by simp
  from onClose_other_room [OF this] show ?thesis using Close by simp
next
  case (Sweep now)
  then show ?thesis using assms by (simp add: sweep_def sweepRooms_other_room)
qed

lemma step_offer:
  assumes "map_of (rooms s) rid = Some (rm\<lparr>pendingOffer := off\<rparr>)" and "rid \<noteq> []"
      and "length (peers rm) = 1"
  shows "map_of (rooms (step cfg s (Message w (Offer p) now rnd))) rid =
     Some (rm\<lparr>pendingOffer :=
        if w < nextWs s \<and> readyStates s w \<noteq> CLOSED \<and> currentRoom s w = Some rid
        then p else off\<rparr>)"
proof (cases "w < nextWs s \<and> readyStates s w \<noteq> CLOSED")
  case False
  then show ?thesis using assms(1) by auto
next
  case live: True
  show ?thesis
  proof (cases "currentRoom s w = Some rid")
    case True
    then have "lookupRoom s (currentRoom s w) = Some (rid, rm\<lparr>pendingOffer := off\<rparr>)"
      using assms(1,2) by (simp add: lookupRoom_Some)
    then show ?thesis using live True assms(3)
      by (simp add: onMessage_def handleSignaling_def update_conv')
  next
    case False
    then show ?thesis using live assms(1)
      by (simp add: onMessage_def handleSignaling_other_room)
  qed
qed

lemma run_undisturbed:
  assumes "rid \<noteq> []" and "length (peers rm) = 1"
  shows "map_of (rooms s) rid = Some (rm\<lparr>pendingOffer := off\<rparr>) \<Longrightarrow> undisturbed cfg rid s es \<Longrightarrow>
         map_of (rooms (run cfg s es)) rid =
           Some (rm\<lparr>pendingOffer := lastOffer cfg rid s es off\<rparr>)"
proof (induction es arbitrary: s off)
  case Nil
  then show ?case by (simp add: run_def)
next
  case (Cons e es)
  let ?off1 = "case e of
          Message w (Offer p) now rnd \<Rightarrow>
            if w < nextWs s \<and> readyStates s w \<noteq> CLOSED \<and> currentRoom s w = Some rid
            then p else off
        | _ \<Rightarrow> off"
  have quiet: "\<not> touches cfg rid s e" "undisturbed cfg rid (step cfg s e) es"
    using Cons.prems(2) by simp_all
  have one: "map_of (rooms (step cfg s e)) rid = Some (rm\<lparr>pendingOffer := ?off1\<rparr>)"
  proof (cases "\<exists>w p now rnd. e = Message w (Offer p) now rnd")
    case True
    then obtain w p now rnd where e: "e = Message w (Offer p) now rnd" by blast
    show ?thesis
      unfolding e using step_offer [OF Cons.prems(1) assms, of cfg w p now rnd] by simp
  next
    case False
    then have no: "\<forall>w p now rnd. e \<noteq> Message w (Offer p) now rnd" by blast
    have same: "?off1 = off"
    proof (cases e)
      case (Message w frm now rnd)
      then show ?thesis using no by (cases frm) simp_all
    qed simp_all
    show ?thesis
      unfolding same using step_untouched [OF quiet(1) no] Cons.prems(1) by simp
  qed
  have "map_of (rooms (run cfg (step cfg s e) es)) rid =
      Some (rm\<lparr>pendingOffer := lastOffer cfg rid (step cfg s e) es ?off1\<rparr>)"
    using one quiet(2) by (rule Cons.IH)
  then show ?case by (simp add: run_def)
qed

text \<open>
  A join into a room with a pending offer, in any state: the joining socket is sent
  \<open>joined\<close> and then the offer, and the slot is cleared.
\<close>

lemma joined_to_others:
  "rcv \<notin> set ps \<Longrightarrow>
   filter (\<lambda>(w', m). w' = rcv) (map (joinedMsg rid rm) (filter P (List.enumerate i ps))) = []"
  by (induction ps arbitrary: i) (auto simp: joinedMsg_def)

lemma drain_pending_offer:
  assumes look: "map_of (rooms s) rid = Some rm" and rid: "rid \<noteq> []"
      and some: "peers rm \<noteq> []" and space: "length (peers rm) < MAX_ROOM_SIZE cfg"
      and off: "truthy (pendingOffer rm)" and fresh: "rcv \<notin> set (peers rm)"
      and rcv: "readyStates s rcv = OPEN"
  shows "sentTo rcv (handleJoin cfg now rnd rcv (Some rid) False s) =
           sentTo rcv s @ [Joined rid (Some ''peer2'') Receiver (Some (length (peers rm) + 1)),
                           PendingOffer (pendingOffer rm)]"
    and "map_of (rooms (handleJoin cfg now rnd rcv (Some rid) False s)) rid =
           Some (rm\<lparr>peers := peers rm @ [rcv],
                    peerIds := AList.update rcv ''peer2'' (peerIds rm), pendingOffer := Absent\<rparr>)"
proof -
  let ?rm1 = "rm\<lparr>peers := peers rm @ [rcv], peerIds := AList.update rcv ''peer2'' (peerIds rm)\<rparr>"
  let ?s' = "handleJoin cfg now rnd rcv (Some rid) False s"
  have lk: "lookupRoom s (Some rid) = Some (rid, rm)"
    using look rid by (simp add: lookupRoom_Some)
  have sent': "sent ?s' = sent s @
      map (joinedMsg rid ?rm1)
        (filter (\<lambda>(j, q). readyStates s q = OPEN) (List.enumerate 0 (peers rm @ [rcv]))) @
      [(rcv, PendingOffer (pendingOffer rm))]"
    using lk space off rcv
    by (simp add: handleJoin_def Let_def notifyJoined_sent)
  have en: "List.enumerate 0 (peers rm @ [rcv]) =
      List.enumerate 0 (peers rm) @ [(length (peers rm), rcv)]"
    by (simp add: enumerate_append_eq)
  have pos: "length (peers rm) \<noteq> 0" using some by simp
  show "sentTo rcv ?s' =
           sentTo rcv s @ [Joined rid (Some ''peer2'') Receiver (Some (length (peers rm) + 1)),
                           PendingOffer (pendingOffer rm)]"
    using rcv pos joined_to_others [OF fresh, of rid ?rm1 "\<lambda>(j, q). readyStates s q = OPEN" 0]
    by (simp add: sentTo_def sent' en joinedMsg_def update_conv')
  show "map_of (rooms ?s') rid =
           Some (rm\<lparr>peers := peers rm @ [rcv],
                    peerIds := AList.update rcv ''peer2'' (peerIds rm), pendingOffer := Absent\<rparr>)"
    using lk space off rcv
    by (simp add: handleJoin_def Let_def update_conv')
qed

text \<open>
  C2. The sender's current room \<open>rid\<close> has one peer and the receiver \<open>rcv\<close> is not attached.
  An \<open>offer\<close> frame from the sender sends nothing and is stored in \<open>pendingOffer\<close>. It stays
  there through every run of events that leaves the room alone (a further offer of the
  sender replaces it). When the open socket \<open>rcv\<close> then joins, and the pending offer is a
  JavaScript object (truthy), the join adds to what \<open>rcv\<close> was sent exactly \<open>joined\<close> (role
  receiver) and after it the pending offer, once, and clears \<open>pendingOffer\<close>. The same holds
  of a join into any room that has a peer, a free place and a truthy pending offer.
\<close>

theorem handshake_ordering:
  assumes room: "lookupRoom s (currentRoom s sndr) = Some (rid, rm)"
      and alone: "length (peers rm) = 1" and fresh: "rcv \<notin> set (peers rm)"
      and max: "MAX_ROOM_SIZE cfg = 2"
      and quiet: "undisturbed cfg rid (handleSignaling sndr (Offer off) s) es"
      and last: "truthy (lastOffer cfg rid (handleSignaling sndr (Offer off) s) es off)"
      and rcv: "readyStates (run cfg (handleSignaling sndr (Offer off) s) es) rcv = OPEN"
  shows "let s1 = handleSignaling sndr (Offer off) s;
             s2 = run cfg s1 es;
             s3 = handleJoin cfg now rnd rcv (Some rid) False s2;
             pending = lastOffer cfg rid s1 es off
         in map_of (rooms s1) rid = Some (rm\<lparr>pendingOffer := off\<rparr>) \<and>
            sent s1 = sent s \<and>
            map_of (rooms s2) rid = Some (rm\<lparr>pendingOffer := pending\<rparr>) \<and>
            sentTo rcv s3 = sentTo rcv s2 @
              [Joined rid (Some ''peer2'') Receiver (Some 2), PendingOffer pending] \<and>
            map_of (rooms s3) rid =
              Some (rm\<lparr>peers := peers rm @ [rcv],
                       peerIds := AList.update rcv ''peer2'' (peerIds rm),
                       pendingOffer := Absent\<rparr>) \<and>
            (\<forall>s' rm'. map_of (rooms s') rid = Some rm' \<and> peers rm' \<noteq> [] \<and>
               length (peers rm') < MAX_ROOM_SIZE cfg \<and> truthy (pendingOffer rm') \<and>
               rcv \<notin> set (peers rm') \<and> readyStates s' rcv = OPEN \<longrightarrow>
               sentTo rcv (handleJoin cfg now rnd rcv (Some rid) False s') =
                 sentTo rcv s' @
                   [Joined rid (Some ''peer2'') Receiver (Some (length (peers rm') + 1)),
                    PendingOffer (pendingOffer rm')] \<and>
               map_option pendingOffer
                 (map_of (rooms (handleJoin cfg now rnd rcv (Some rid) False s')) rid) =
                 Some Absent)"
proof -
  obtain p where p: "peers rm = [p]"
    using alone by (cases "peers rm") auto
  have rid: "rid \<noteq> []" and look: "map_of (rooms s) rid = Some rm"
    using room by (simp_all add: lookupRoom_Some)
  define s1 where "s1 = handleSignaling sndr (Offer off) s"
  define s2 where "s2 = run cfg s1 es"
  define pending where "pending = lastOffer cfg rid s1 es off"
  let ?rm = "rm\<lparr>pendingOffer := pending\<rparr>"
  have s1: "s1 = setRoom rid (rm\<lparr>pendingOffer := off\<rparr>) s"
    using room p by (simp add: s1_def handleSignaling_def)
  have look1: "map_of (rooms s1) rid = Some (rm\<lparr>pendingOffer := off\<rparr>)"
    and sent1: "sent s1 = sent s"
    by (simp_all add: s1 update_conv')
  have look2: "map_of (rooms s2) rid = Some ?rm"
    unfolding s2_def pending_def
    using run_undisturbed [OF rid alone look1] quiet by (simp add: s1_def)
  have open2: "readyStates s2 rcv = OPEN" using rcv by (simp add: s2_def s1_def)
  have tr: "truthy pending" using last by (simp add: pending_def s1_def)
  have d: "sentTo rcv (handleJoin cfg now rnd rcv (Some rid) False s2) =
      sentTo rcv s2 @ [Joined rid (Some ''peer2'') Receiver (Some (length (peers ?rm) + 1)),
                       PendingOffer (pendingOffer ?rm)]"
    "map_of (rooms (handleJoin cfg now rnd rcv (Some rid) False s2)) rid =
      Some (?rm\<lparr>peers := peers ?rm @ [rcv],
               peerIds := AList.update rcv ''peer2'' (peerIds ?rm), pendingOffer := Absent\<rparr>)"
    using drain_pending_offer [OF look2 rid _ _ _ _ open2, of cfg now rnd] p max tr fresh
    by simp_all
  have gen: "sentTo rcv (handleJoin cfg now rnd rcv (Some rid) False s') =
                 sentTo rcv s' @
                   [Joined rid (Some ''peer2'') Receiver (Some (length (peers rm') + 1)),
                    PendingOffer (pendingOffer rm')] \<and>
               map_option pendingOffer
                 (map_of (rooms (handleJoin cfg now rnd rcv (Some rid) False s')) rid) =
                 Some Absent"
    if "map_of (rooms s') rid = Some rm' \<and> peers rm' \<noteq> [] \<and>
               length (peers rm') < MAX_ROOM_SIZE cfg \<and> truthy (pendingOffer rm') \<and>
               rcv \<notin> set (peers rm') \<and> readyStates s' rcv = OPEN" for s' rm'
    using drain_pending_offer [of s' rid rm' cfg rcv now rnd] that rid by simp
  have two: "Some (length (peers ?rm) + 1) = Some 2" using p by simp
  have main: "map_of (rooms s1) rid = Some (rm\<lparr>pendingOffer := off\<rparr>) \<and>
            sent s1 = sent s \<and>
            map_of (rooms s2) rid = Some (rm\<lparr>pendingOffer := pending\<rparr>) \<and>
            sentTo rcv (handleJoin cfg now rnd rcv (Some rid) False s2) = sentTo rcv s2 @
              [Joined rid (Some ''peer2'') Receiver (Some 2), PendingOffer pending] \<and>
            map_of (rooms (handleJoin cfg now rnd rcv (Some rid) False s2)) rid =
              Some (rm\<lparr>peers := peers rm @ [rcv],
                       peerIds := AList.update rcv ''peer2'' (peerIds rm),
                       pendingOffer := Absent\<rparr>)"
    using look1 sent1 look2 d unfolding two by simp
  show ?thesis
    unfolding Let_def s1_def [symmetric] s2_def [symmetric] pending_def [symmetric]
    using main gen by blast
qed

text \<open>
  Socket 0 has created room \<open>AAAAAA\<close> and sends an offer, ICE candidates and a second
  offer; socket 1 then joins and is sent \<open>joined\<close> and the second offer.
\<close>

theorem handshake_ordering_witness:
  "sentTo 1 (handleJoin default_config 2000 zero_draws 1 (Some ''AAAAAA'') False
      (run default_config (handleSignaling 0 (Offer (Obj 5)) first_room_state) ice_events)) =
     [Connected, Joined ''AAAAAA'' (Some ''peer2'') Receiver (Some 2), PendingOffer (Obj 6)]"
proof -
  let ?s1 = "handleSignaling 0 (Offer (Obj 5)) first_room_state"
  have a: "lookupRoom first_room_state (currentRoom first_room_state 0) = Some (''AAAAAA'',
      \<lparr>peers = [0], createdAt = 1000,
      peerIds = [(0, ''peer1'')], pendingOffer = Absent, pendingAnswer = Absent\<rparr>)"
    by (simp add: first_room_eval lookupRoom_def)
  have s1: "?s1 = first_room_state\<lparr>rooms := [(''AAAAAA'',
      \<lparr>peers = [0], createdAt = 1000,
      peerIds = [(0, ''peer1'')], pendingOffer = Obj 5, pendingAnswer = Absent\<rparr>)]\<rparr>"
    by (simp add: handleSignaling_def first_room_eval lookupRoom_def setRoom_def)
  have s2: "run default_config ?s1 ice_events =
      first_room_state\<lparr>rooms := [(''AAAAAA'',
        \<lparr>peers = [0], createdAt = 1000,
        peerIds = [(0, ''peer1'')], pendingOffer = Obj 6, pendingAnswer = Absent\<rparr>)],
        readyStates := (\<lambda>_. CLOSED)(0 := OPEN, 1 := OPEN, 2 := OPEN),
        currentRoom := (\<lambda>_. None)(0 := Some ''AAAAAA'', 1 := None, 2 := None),
        peerId := (\<lambda>_. None)(0 := Some ''peer1'', 1 := None, 2 := None),
        sent := [(0, Connected), (1, Connected),
              (0, Joined ''AAAAAA'' (Some ''peer1'') Sender None), (2, Connected)],
        nextWs := 3\<rparr>"
    unfolding s1
    by (simp add: ice_events_def run_def first_room_eval onMessage_def handleSignaling_def
          lookupRoom_def onConnection_def Let_def ws_send_def sweep_def default_config_def
          setRoom_def fun_eq_iff)
  have q: "undisturbed default_config ''AAAAAA'' ?s1 ice_events"
    unfolding s1
    by (simp add: ice_events_def first_room_eval onMessage_def handleSignaling_def
          lookupRoom_def onConnection_def Let_def ws_send_def sweep_def default_config_def
          setRoom_def)
  have l: "lastOffer default_config ''AAAAAA'' ?s1 ice_events (Obj 5) = Obj 6"
    unfolding s1
    by (simp add: ice_events_def first_room_eval onMessage_def handleSignaling_def
          lookupRoom_def onConnection_def Let_def ws_send_def sweep_def default_config_def
          setRoom_def)
  have b: "readyStates (run default_config ?s1 ice_events) 1 = OPEN"
    by (simp add: s2)
  have al: "length (peers \<lparr>peers = [0 :: nat], createdAt = 1000,
      peerIds = [(0, ''peer1'')], pendingOffer = Absent, pendingAnswer = Absent\<rparr>) = 1"
    and fr: "1 \<notin> set (peers \<lparr>peers = [0 :: nat], createdAt = 1000,
      peerIds = [(0, ''peer1'')], pendingOffer = Absent, pendingAnswer = Absent\<rparr>)"
    and mx: "MAX_ROOM_SIZE default_config = 2"
    by (simp_all add: default_config_def)
  have la: "truthy (lastOffer default_config ''AAAAAA'' ?s1 ice_events (Obj 5))"
    by (simp add: l truthy_def)
  have c: "sentTo 1 (run default_config ?s1 ice_events) = [Connected]"
    by (simp add: s2 sentTo_def)
  have "sentTo 1 (handleJoin default_config 2000 zero_draws 1 (Some ''AAAAAA'') False
      (run default_config ?s1 ice_events)) = sentTo 1 (run default_config ?s1 ice_events) @
     [Joined ''AAAAAA'' (Some ''peer2'') Receiver (Some 2), PendingOffer (Obj 6)]"
    using handshake_ordering [OF a al fr mx q la b, of 2000 zero_draws]
    by (simp add: Let_def l)
  then show ?thesis by (simp only: c append_Cons append_Nil)
qed

subsection \<open>Room creation\<close>

text \<open>
  C8, as stated, fails: the code is generated once and never compared with the table. With
  the same draws for two creations the second creation is given the code of the first room,
  and \<open>rooms.set\<close> replaces that room (peer 0, created at 1000) by the new one.
\<close>

theorem create_room_counterexample:
  "generateRoomCode zero_draws = ''AAAAAA'' \<and>
   rooms first_room_state = [(''AAAAAA'',
       \<lparr>peers = [0], createdAt = 1000, peerIds = [(0, ''peer1'')],
        pendingOffer = Absent, pendingAnswer = Absent\<rparr>)] \<and>
   rooms collision_state = [(''AAAAAA'',
       \<lparr>peers = [1], createdAt = 2000, peerIds = [(1, ''peer1'')],
        pendingOffer = Absent, pendingAnswer = Absent\<rparr>)]"
  by (simp add: zero_code collision_state_def first_room_rooms onMessage_def handleJoin_def Let_def)
     (simp add: first_room_state_def run_def init_broker_def onConnection_def
        onMessage_def handleJoin_def zero_code Let_def)

text \<open>
  C8, amended. A join with \<open>createNew\<close> assigns the generated code, six characters of the
  32-symbol alphabet, without consulting the table. Under that code it installs a room whose
  only peer, \<open>peers[0]\<close>, is the creator, and answers \<open>joined\<close> with role sender; rooms under
  every other code are untouched, and when the code is not in use the table is the old table
  with the new room appended, so no existing room is replaced or destroyed.
\<close>

theorem create_room:
  "let code = generateRoomCode rnd;
       s' = handleJoin cfg now rnd w roomId True s;
       rm = \<lparr>peers = [w], createdAt = now, peerIds = [(w, ''peer1'')],
             pendingOffer = Absent, pendingAnswer = Absent\<rparr>
   in length code = 6 \<and> set code \<subseteq> set chars \<and>
      map_of (rooms s') code = Some rm \<and>
      (\<forall>rid. rid \<noteq> code \<longrightarrow> map_of (rooms s') rid = map_of (rooms s) rid) \<and>
      (code \<notin> fst ` set (rooms s) \<longrightarrow> rooms s' = rooms s @ [(code, rm)]) \<and>
      currentRoom s' w = Some code \<and>
      sent s' = sent s @ [(w, Joined code (Some ''peer1'') Sender None)]"
  by (simp add: Let_def handleJoin_def generateRoomCode_length generateRoomCode_set
        update_conv' update_fresh)

theorem create_room_witness:
  "rooms (handleJoin default_config 1000 zero_draws 0 None True connected_state) =
     [(''AAAAAA'', \<lparr>peers = [0], createdAt = 1000, peerIds = [(0, ''peer1'')],
        pendingOffer = Absent, pendingAnswer = Absent\<rparr>)] \<and>
   sent (handleJoin default_config 1000 zero_draws 0 None True connected_state) =
     [(0, Connected), (0, Joined ''AAAAAA'' (Some ''peer1'') Sender None)]"
proof -
  have r: "rooms connected_state = []" and s: "sent connected_state = [(0, Connected)]"
    by (simp_all add: connected_state_def run_def init_broker_def onConnection_def)
  show ?thesis
    using create_room [of zero_draws default_config 1000 0 None connected_state]
    by (simp add: Let_def zero_code r s)
qed

subsection \<open>Roles\<close>

lemma forwardToOthers_sent:
  "\<exists>ms. sent (forwardToOthers ps w d s) = sent s @ ms \<and> (\<forall>x\<in>set ms. snd x = Forwarded d)"
proof (induction ps arbitrary: s)
  case Nil
  then show ?case by simp
next
  case (Cons p ps)
  let ?s1 = "if p \<noteq> w \<and> readyStates s p = OPEN then ws_send p (Forwarded d) s else s"
  obtain ms where ms: "sent (forwardToOthers ps w d ?s1) = sent ?s1 @ ms"
      "\<forall>x\<in>set ms. snd x = Forwarded d"
    using Cons.IH [of ?s1] by blast
  show ?case
  proof (cases "p \<noteq> w \<and> readyStates s p = OPEN")
    case True
    then have "sent (forwardToOthers (p # ps) w d s) = sent s @ ((p, Forwarded d) # ms)"
      using ms(1) by simp
    then show ?thesis using ms(2) by (intro exI [of _ "(p, Forwarded d) # ms"]) simp
  next
    case False
    then have "sent (forwardToOthers (p # ps) w d s) = sent s @ ms"
      using ms(1) by auto
    then show ?thesis using ms(2) by blast
  qed
qed

lemma notifyDisconnected_sent:
  "\<exists>ms. sent (notifyDisconnected ps s) = sent s @ ms \<and> (\<forall>x\<in>set ms. snd x = PeerDisconnected)"
proof (induction ps arbitrary: s)
  case Nil
  then show ?case by simp
next
  case (Cons p ps)
  let ?s1 = "if readyStates s p = OPEN then ws_send p PeerDisconnected s else s"
  obtain ms where ms: "sent (notifyDisconnected ps ?s1) = sent ?s1 @ ms"
      "\<forall>x\<in>set ms. snd x = PeerDisconnected"
    using Cons.IH [of ?s1] by blast
  show ?case
  proof (cases "readyStates s p = OPEN")
    case True
    then have "sent (notifyDisconnected (p # ps) s) = sent s @ ((p, PeerDisconnected) # ms)"
      using ms(1) by simp
    then show ?thesis using ms(2) by (intro exI [of _ "(p, PeerDisconnected) # ms"]) simp
  next
    case False
    then have "sent (notifyDisconnected (p # ps) s) = sent s @ ms"
      using ms(1) by auto
    then show ?thesis using ms(2) by blast
  qed
qed

lemma expirePeers_sent:
  "\<exists>ms. sent (expirePeers ps s) = sent s @ ms \<and> (\<forall>x\<in>set ms. snd x = RoomExpired)"
proof (induction ps arbitrary: s)
  case Nil
  then show ?case by simp
next
  case (Cons p ps)
  let ?s1 = "if readyStates s p = OPEN
        then (ws_send p RoomExpired s)\<lparr>readyStates := (readyStates s)(p := CLOSING)\<rparr> else s"
  obtain ms where ms: "sent (expirePeers ps ?s1) = sent ?s1 @ ms"
      "\<forall>x\<in>set ms. snd x = RoomExpired"
    using Cons.IH [of ?s1] by blast
  show ?case
  proof (cases "readyStates s p = OPEN")
    case True
    then have "sent (expirePeers (p # ps) s) = sent s @ ((p, RoomExpired) # ms)"
      using ms(1) by simp
    then show ?thesis using ms(2) by (intro exI [of _ "(p, RoomExpired) # ms"]) simp
  next
    case False
    then have "sent (expirePeers (p # ps) s) = sent s @ ms"
      using ms(1) by auto
    then show ?thesis using ms(2) by blast
  qed
qed

lemma sweepRooms_sent:
  "\<exists>ms. sent (sweepRooms cfg now l s) = sent s @ ms \<and> (\<forall>x\<in>set ms. snd x = RoomExpired)"
proof (induction l arbitrary: s)
  case Nil
  then show ?case by simp
next
  case (Cons e l)
  obtain rid rm where e: "e = (rid, rm)" by (cases e)
  let ?s1 = "if now - createdAt rm > ROOM_EXPIRY cfg
        then (let s1 = expirePeers (peers rm) s in s1\<lparr>rooms := AList.delete rid (rooms s1)\<rparr>)
        else s"
  obtain ms1 where ms1: "sent ?s1 = sent s @ ms1" "\<forall>x\<in>set ms1. snd x = RoomExpired"
    using expirePeers_sent [of "peers rm" s] by (cases "now - createdAt rm > ROOM_EXPIRY cfg") (auto simp: Let_def)
  obtain ms where ms: "sent (sweepRooms cfg now l ?s1) = sent ?s1 @ ms"
      "\<forall>x\<in>set ms. snd x = RoomExpired"
    using Cons.IH [of ?s1] by blast
  have "sent (sweepRooms cfg now (e # l) s) = sent s @ (ms1 @ ms)"
    using ms(1) ms1(1) e by simp
  then show ?case using ms(2) ms1(2) by (intro exI [of _ "ms1 @ ms"]) auto
qed

lemma handleJoin_joined_position:
  assumes "(p, Joined rid pid r cnt) \<in> set (newMsgs s (handleJoin cfg now rnd w roomId createNew s))"
  shows "\<exists>rm i. map_of (rooms (handleJoin cfg now rnd w roomId createNew s)) rid = Some rm \<and>
            i < length (peers rm) \<and> peers rm ! i = p \<and> r = (if i = 0 then Sender else Receiver)"
proof (cases createNew)
  case True
  let ?s' = "handleJoin cfg now rnd w roomId createNew s"
  have "newMsgs s ?s' = [(w, Joined (generateRoomCode rnd) (Some ''peer1'') Sender None)]"
    using True by (intro newMsgs_append) (simp add: handleJoin_def Let_def)
  then have eq: "p = w" "rid = generateRoomCode rnd" "r = Sender" using assms by auto
  have "map_option peers (map_of (rooms ?s') rid) = Some [w]"
    using True eq by (simp add: handleJoin_def Let_def update_conv')
  then obtain rm where "map_of (rooms ?s') rid = Some rm" "peers rm = [w]" by auto
  then show ?thesis using eq by (intro exI [of _ rm] exI [of _ 0]) simp
next
  case False
  let ?s' = "handleJoin cfg now rnd w roomId createNew s"
  show ?thesis
  proof (cases "lookupRoom s roomId")
    case None
    then have "newMsgs s ?s' = [(w, Error InvalidRoom)]"
      using False by (intro newMsgs_append) (simp add: handleJoin_def)
    then show ?thesis using assms by simp
  next
    case (Some q)
    obtain rid' rm where q: "q = (rid', rm)" by (cases q)
    show ?thesis
    proof (cases "length (peers rm) \<ge> MAX_ROOM_SIZE cfg")
      case True
      then have "newMsgs s ?s' = [(w, Error RoomFull)]"
        using False Some q by (intro newMsgs_append) (simp add: handleJoin_def)
      then show ?thesis using assms by simp
    next
      case notfull: False
      let ?rm1 = "rm\<lparr>peers := peers rm @ [w], peerIds := AList.update w ''peer2'' (peerIds rm)\<rparr>"
      let ?js = "map (joinedMsg rid' ?rm1)
                  (filter (\<lambda>(j, p). readyStates s p = OPEN) (List.enumerate 0 (peers rm @ [w])))"
      have "newMsgs s ?s' = ?js \<or> newMsgs s ?s' = ?js @ [(w, PendingOffer (pendingOffer rm))]"
        using False Some q notfull
        by (cases "truthy (pendingOffer rm) \<and> readyStates s w = OPEN")
           (auto simp: handleJoin_def Let_def notifyJoined_sent intro!: newMsgs_append)
      then have "(p, Joined rid pid r cnt) \<in> set ?js" using assms by auto
      then obtain j where j: "(j, p) \<in> set (List.enumerate 0 (peers rm @ [w]))"
          and m: "(p, Joined rid pid r cnt) = joinedMsg rid' ?rm1 (j, p)"
        by (auto simp: joinedMsg_def)
      from j have jlt: "j < length (peers rm @ [w])" and jp: "(peers rm @ [w]) ! j = p"
        by (auto simp: in_set_enumerate_eq)
      from m have rid: "rid = rid'" and r: "r = (if j = 0 then Sender else Receiver)"
        by (simp_all add: joinedMsg_def)
      have "map_option peers (map_of (rooms ?s') rid') = Some (peers rm @ [w])"
        using False Some q notfull
        by (cases "truthy (pendingOffer rm) \<and> readyStates s w = OPEN")
           (auto simp: handleJoin_def Let_def update_conv')
      then obtain rm' where "map_of (rooms ?s') rid' = Some rm'" "peers rm' = peers rm @ [w]" by auto
      then show ?thesis using jlt jp r rid by (intro exI [of _ rm'] exI [of _ j]) simp
    qed
  qed
qed

lemma handleSignaling_no_joined:
  "(p, Joined rid pid r cnt) \<notin> set (newMsgs s (handleSignaling w frm s))"
proof (cases "lookupRoom s (currentRoom s w)")
  case None
  then show ?thesis by (simp add: handleSignaling_def newMsgs_def)
next
  case (Some q)
  obtain rid' rm where q: "q = (rid', rm)" by (cases q)
  obtain ms where ms: "sent (forwardToOthers (peers rm) w frm s) = sent s @ ms"
      "\<forall>x\<in>set ms. snd x = Forwarded frm"
    using forwardToOthers_sent by blast
  have fw: "(p, Joined rid pid r cnt) \<notin> set (newMsgs s (forwardToOthers (peers rm) w frm s))"
    using ms by (auto simp: newMsgs_def)
  show ?thesis using Some q fw
    by (cases frm) (auto simp: handleSignaling_def newMsgs_def)
qed

lemma broadcastToRoom_no_joined:
  "(p, Joined rid pid r cnt) \<notin> set (newMsgs s (broadcastToRoom cr w frm s))"
proof (cases "lookupRoom s cr")
  case None
  then show ?thesis by (simp add: broadcastToRoom_def newMsgs_def)
next
  case (Some q)
  obtain rid' rm where q: "q = (rid', rm)" by (cases q)
  obtain ms where ms: "sent (forwardToOthers (peers rm) w frm s) = sent s @ ms"
      "\<forall>x\<in>set ms. snd x = Forwarded frm"
    using forwardToOthers_sent by blast
  then show ?thesis using Some q by (auto simp: broadcastToRoom_def newMsgs_def)
qed

lemma onClose_no_joined:
  assumes "sent s0 = sent s"
  shows "(p, Joined rid pid r cnt) \<notin> set (newMsgs s (onClose w s0))"
proof (cases "lookupRoom s0 (currentRoom s0 w)")
  case None
  then show ?thesis using assms by (simp add: onClose_def newMsgs_def)
next
  case (Some q)
  obtain rid' rm where q: "q = (rid', rm)" by (cases q)
  let ?rm1 = "rm\<lparr>peers := filter (\<lambda>p. p \<noteq> w) (peers rm)\<rparr>"
  obtain ms where ms: "sent (notifyDisconnected (peers ?rm1) (setRoom rid' ?rm1 s0)) = sent (setRoom rid' ?rm1 s0) @ ms"
      "\<forall>x\<in>set ms. snd x = PeerDisconnected"
    using notifyDisconnected_sent by blast
  have "sent (onClose w s0) = sent (notifyDisconnected (peers ?rm1) (setRoom rid' ?rm1 s0))"
    using Some q by (simp add: onClose_def Let_def)
  then have "sent (onClose w s0) = sent s @ ms"
    using ms(1) assms by simp
  then show ?thesis using ms(2) by (auto simp: newMsgs_def)
qed

lemma step_joined_position:
  assumes "(p, Joined rid pid r cnt) \<in> set (newMsgs s (step cfg s e))"
  shows "\<exists>rm i. map_of (rooms (step cfg s e)) rid = Some rm \<and>
            i < length (peers rm) \<and> peers rm ! i = p \<and> r = (if i = 0 then Sender else Receiver)"
proof (cases e)
  case Connection
  then show ?thesis using assms by (simp add: onConnection_def Let_def newMsgs_def)
next
  case (Message w frm now rnd)
  show ?thesis
  proof (cases "w < nextWs s \<and> readyStates s w \<noteq> CLOSED")
    case False
    then show ?thesis using assms Message by (auto simp: newMsgs_def)
  next
    case True
    then have st: "step cfg s e = onMessage cfg now rnd w frm s" using Message by simp
    show ?thesis
    proof (cases frm)
      case (Join createNew roomId)
      then show ?thesis using assms handleJoin_joined_position [of p rid pid r cnt s cfg now rnd w roomId createNew]
        by (simp add: st onMessage_def)
    qed (use assms handleSignaling_no_joined broadcastToRoom_no_joined in
          \<open>auto simp: st onMessage_def newMsgs_def split: if_splits\<close>)
  qed
next
  case (Down w)
  then show ?thesis using assms by (auto simp: newMsgs_def)
next
  case (Close w)
  have "(p, Joined rid pid r cnt) \<notin> set (newMsgs s (onClose w (s\<lparr>readyStates := (readyStates s)(w := CLOSED)\<rparr>)))"
    by (rule onClose_no_joined) simp
  then show ?thesis using assms Close by (auto simp: newMsgs_def)
next
  case (Sweep now)
  obtain ms where "sent (sweepRooms cfg now (rooms s) s) = sent s @ ms" "\<forall>x\<in>set ms. snd x = RoomExpired"
    using sweepRooms_sent by blast
  then show ?thesis using assms Sweep by (auto simp: newMsgs_def sweep_def)
qed

lemma handleJoin_joiner_receiver:
  assumes look: "map_of (rooms s) rid = Some rm" and rid: "rid \<noteq> []" and ne: "peers rm \<noteq> []"
      and "length (peers rm) < MAX_ROOM_SIZE cfg" and "readyStates s w = OPEN"
  shows "(w, Joined rid (Some ''peer2'') Receiver (Some (length (peers rm) + 1)))
           \<in> set (newMsgs s (handleJoin cfg now rnd w (Some rid) False s))"
proof -
  let ?s' = "handleJoin cfg now rnd w (Some rid) False s"
  let ?rm1 = "rm\<lparr>peers := peers rm @ [w], peerIds := AList.update w ''peer2'' (peerIds rm)\<rparr>"
  let ?js = "map (joinedMsg rid ?rm1)
              (filter (\<lambda>(j, p). readyStates s p = OPEN) (List.enumerate 0 (peers rm @ [w])))"
  have lk: "lookupRoom s (Some rid) = Some (rid, rm)"
    using look rid by (simp add: lookupRoom_Some)
  have new: "newMsgs s ?s' = ?js \<or> newMsgs s ?s' = ?js @ [(w, PendingOffer (pendingOffer rm))]"
    using lk assms(4)
    by (cases "truthy (pendingOffer rm) \<and> readyStates s w = OPEN")
       (auto simp: handleJoin_def Let_def notifyJoined_sent intro!: newMsgs_append)
  have "(length (peers rm), w) \<in> set (List.enumerate 0 (peers rm @ [w]))"
    by (simp add: in_set_enumerate_eq)
  then have "(length (peers rm), w) \<in>
      set (filter (\<lambda>(j, p). readyStates s p = OPEN) (List.enumerate 0 (peers rm @ [w])))"
    using assms(5) by simp
  then have "joinedMsg rid ?rm1 (length (peers rm), w) \<in> set ?js"
    unfolding set_map by (rule imageI)
  moreover have "joinedMsg rid ?rm1 (length (peers rm), w) =
      (w, Joined rid (Some ''peer2'') Receiver (Some (length (peers rm) + 1)))"
    using ne by (simp add: joinedMsg_def update_conv')
  ultimately show ?thesis using new by auto
qed

text \<open>
  C7, as stated, fails: socket 1 joins the room of socket 0 and is told \<open>receiver\<close>; socket 0
  closes, socket 1 moves to index 0 of the peer list, and at the next join (of socket 2) it is
  told \<open>sender\<close>.
\<close>

theorem role_change_counterexample:
  "sentTo 1 (run default_config init_broker role_change_events) =
     [Connected, Joined ''AAAAAA'' (Some ''peer2'') Receiver (Some 2), PeerDisconnected,
      Joined ''AAAAAA'' (Some ''peer2'') Sender (Some 2)]"
proof -
  have "run default_config init_broker role_change_events =
        run default_config two_peers_state
          [Close 0, Message 2 (Join False (Some ''AAAAAA'')) 3000 zero_draws]"
    by (simp add: role_change_events_def run_def two_peers_state_def)
  then show ?thesis
    by (simp add: two_peers_eval run_def onClose_def lookupRoom_def two_peers_room_def Let_def
          setRoom_def onMessage_def handleJoin_def default_config_def sentTo_def truthy_def)
qed

text \<open>
  C7, amended. In every reachable state and for every event, each \<open>joined\<close> message reports
  the role of the position its recipient has in the room's peer list at that moment: sender
  at index 0, receiver at any later index. So the socket that creates a room is answered
  \<open>joined\<close> with role sender, and an open socket that joins an existing room is told
  \<open>receiver\<close> in the reply to its own join. (A role is not kept for a socket's lifetime:
  positions shift when the first peer detaches.)
\<close>

theorem role_by_position:
  assumes "reachable cfg s"
  shows "(\<forall>p rid pid r cnt. (p, Joined rid pid r cnt) \<in> set (newMsgs s (step cfg s e)) \<longrightarrow>
            (\<exists>rm i. map_of (rooms (step cfg s e)) rid = Some rm \<and> i < length (peers rm) \<and>
                    peers rm ! i = p \<and> r = (if i = 0 then Sender else Receiver))) \<and>
         (\<forall>w roomId now rnd.
            e = Message w (Join True roomId) now rnd \<and> w < nextWs s \<and> readyStates s w \<noteq> CLOSED \<longrightarrow>
            newMsgs s (step cfg s e) =
              [(w, Joined (generateRoomCode rnd) (Some ''peer1'') Sender None)]) \<and>
         (\<forall>w rid rm now rnd.
            e = Message w (Join False (Some rid)) now rnd \<and> w < nextWs s \<and>
            readyStates s w = OPEN \<and> map_of (rooms s) rid = Some rm \<and>
            length (peers rm) < MAX_ROOM_SIZE cfg \<longrightarrow>
            (w, Joined rid (Some ''peer2'') Receiver (Some (length (peers rm) + 1)))
              \<in> set (newMsgs s (step cfg s e)))"
proof (intro conjI allI impI)
  fix p rid pid r cnt
  assume "(p, Joined rid pid r cnt) \<in> set (newMsgs s (step cfg s e))"
  then show "\<exists>rm i. map_of (rooms (step cfg s e)) rid = Some rm \<and> i < length (peers rm) \<and>
                    peers rm ! i = p \<and> r = (if i = 0 then Sender else Receiver)"
    by (rule step_joined_position)
next
  fix w roomId now rnd
  assume "e = Message w (Join True roomId) now rnd \<and> w < nextWs s \<and> readyStates s w \<noteq> CLOSED"
  then show "newMsgs s (step cfg s e) =
              [(w, Joined (generateRoomCode rnd) (Some ''peer1'') Sender None)]"
    by (intro newMsgs_append) (simp add: onMessage_def handleJoin_def Let_def)
next
  fix w rid rm now rnd
  assume a: "e = Message w (Join False (Some rid)) now rnd \<and> w < nextWs s \<and>
            readyStates s w = OPEN \<and> map_of (rooms s) rid = Some rm \<and>
            length (peers rm) < MAX_ROOM_SIZE cfg"
  then have "room_ok cfg rid rm"
    using rooms_okD [OF reachable_ok [OF assms]] by blast
  then have "rid \<noteq> []" "peers rm \<noteq> []" by (auto simp: room_ok_def)
  then have "(w, Joined rid (Some ''peer2'') Receiver (Some (length (peers rm) + 1)))
           \<in> set (newMsgs s (handleJoin cfg now rnd w (Some rid) False s))"
    using a by (intro handleJoin_joiner_receiver) simp_all
  then show "(w, Joined rid (Some ''peer2'') Receiver (Some (length (peers rm) + 1)))
              \<in> set (newMsgs s (step cfg s e))"
    using a by (simp add: onMessage_def)
qed

theorem role_by_position_witness:
  "(1, Joined ''AAAAAA'' (Some ''peer2'') Receiver (Some 2))
     \<in> set (newMsgs first_room_state
          (step default_config first_room_state
             (Message 1 (Join False (Some ''AAAAAA'')) 2000 zero_draws)))"
proof -
  have r: "reachable default_config first_room_state"
    unfolding first_room_state_def by (rule reachable_run [OF reach_init])
  have "map_of (rooms first_room_state) ''AAAAAA'' = Some \<lparr>peers = [0], createdAt = 1000,
      peerIds = [(0, ''peer1'')], pendingOffer = Absent, pendingAnswer = Absent\<rparr>"
    "readyStates first_room_state 1 = OPEN" "1 < nextWs first_room_state"
    by (simp_all add: first_room_eval)
  then show ?thesis
    using role_by_position [OF r, of "Message 1 (Join False (Some ''AAAAAA'')) 2000 zero_draws"]
    by (simp add: default_config_def numeral_2_eq_2)
qed

subsection \<open>The pending answer\<close>

text \<open>
  An \<open>answer\<close> is only ever sent while an \<open>answer\<close> frame with that payload is being
  handled, that is, forwarded at once: no event replays a stored answer.
\<close>

lemma handleJoin_no_forward:
  "(p, Forwarded fr) \<notin> set (newMsgs s (handleJoin cfg now rnd w roomId createNew s))"
proof (cases createNew)
  case True
  have "newMsgs s (handleJoin cfg now rnd w roomId createNew s) =
      [(w, Joined (generateRoomCode rnd) (Some ''peer1'') Sender None)]"
    using True by (intro newMsgs_append) (simp add: handleJoin_def Let_def)
  then show ?thesis by simp
next
  case False
  let ?s' = "handleJoin cfg now rnd w roomId createNew s"
  show ?thesis
  proof (cases "lookupRoom s roomId")
    case None
    then have "newMsgs s ?s' = [(w, Error InvalidRoom)]"
      using False by (intro newMsgs_append) (simp add: handleJoin_def)
    then show ?thesis by simp
  next
    case (Some q)
    obtain rid rm where q: "q = (rid, rm)" by (cases q)
    show ?thesis
    proof (cases "length (peers rm) \<ge> MAX_ROOM_SIZE cfg")
      case True
      then have "newMsgs s ?s' = [(w, Error RoomFull)]"
        using False Some q by (intro newMsgs_append) (simp add: handleJoin_def)
      then show ?thesis by simp
    next
      case notfull: False
      let ?rm1 = "rm\<lparr>peers := peers rm @ [w], peerIds := AList.update w ''peer2'' (peerIds rm)\<rparr>"
      let ?js = "map (joinedMsg rid ?rm1)
                  (filter (\<lambda>(j, p). readyStates s p = OPEN) (List.enumerate 0 (peers rm @ [w])))"
      have "newMsgs s ?s' = ?js \<or> newMsgs s ?s' = ?js @ [(w, PendingOffer (pendingOffer rm))]"
        using False Some q notfull
        by (cases "truthy (pendingOffer rm) \<and> readyStates s w = OPEN")
           (auto simp: handleJoin_def Let_def notifyJoined_sent intro!: newMsgs_append)
      moreover have "(p, Forwarded fr) \<notin> set ?js" by (auto simp: joinedMsg_def)
      ultimately show ?thesis by auto
    qed
  qed
qed

lemma handleSignaling_forwards:
  "(p, Forwarded fr) \<in> set (newMsgs s (handleSignaling w frm s)) \<Longrightarrow> fr = frm"
proof (cases "lookupRoom s (currentRoom s w)")
  case None
  assume "(p, Forwarded fr) \<in> set (newMsgs s (handleSignaling w frm s))"
  then show ?thesis using None by (simp add: handleSignaling_def newMsgs_def)
next
  case (Some q)
  assume a: "(p, Forwarded fr) \<in> set (newMsgs s (handleSignaling w frm s))"
  obtain rid rm where q: "q = (rid, rm)" by (cases q)
  obtain ms where ms: "sent (forwardToOthers (peers rm) w frm s) = sent s @ ms"
      "\<forall>x\<in>set ms. snd x = Forwarded frm"
    using forwardToOthers_sent by blast
  have fw: "(p, Forwarded fr) \<in> set (newMsgs s (forwardToOthers (peers rm) w frm s)) \<Longrightarrow> fr = frm"
    using ms by (auto simp: newMsgs_def)
  show ?thesis using Some q fw a
    by (cases frm) (auto simp: handleSignaling_def newMsgs_def split: if_splits)
qed

lemma broadcastToRoom_forwards:
  "(p, Forwarded fr) \<in> set (newMsgs s (broadcastToRoom cr w frm s)) \<Longrightarrow> fr = frm"
proof (cases "lookupRoom s cr")
  case None
  assume "(p, Forwarded fr) \<in> set (newMsgs s (broadcastToRoom cr w frm s))"
  then show ?thesis using None by (simp add: broadcastToRoom_def newMsgs_def)
next
  case (Some q)
  assume a: "(p, Forwarded fr) \<in> set (newMsgs s (broadcastToRoom cr w frm s))"
  obtain rid rm where q: "q = (rid, rm)" by (cases q)
  obtain ms where ms: "sent (forwardToOthers (peers rm) w frm s) = sent s @ ms"
      "\<forall>x\<in>set ms. snd x = Forwarded frm"
    using forwardToOthers_sent by blast
  then show ?thesis using Some q a by (auto simp: broadcastToRoom_def newMsgs_def)
qed

lemma onClose_no_forward:
  assumes "sent s0 = sent s"
  shows "(p, Forwarded fr) \<notin> set (newMsgs s (onClose w s0))"
proof (cases "lookupRoom s0 (currentRoom s0 w)")
  case None
  then show ?thesis using assms by (simp add: onClose_def newMsgs_def)
next
  case (Some q)
  obtain rid' rm where q: "q = (rid', rm)" by (cases q)
  let ?rm1 = "rm\<lparr>peers := filter (\<lambda>p. p \<noteq> w) (peers rm)\<rparr>"
  obtain ms where ms: "sent (notifyDisconnected (peers ?rm1) (setRoom rid' ?rm1 s0)) = sent (setRoom rid' ?rm1 s0) @ ms"
      "\<forall>x\<in>set ms. snd x = PeerDisconnected"
    using notifyDisconnected_sent by blast
  have "sent (onClose w s0) = sent (notifyDisconnected (peers ?rm1) (setRoom rid' ?rm1 s0))"
    using Some q by (simp add: onClose_def Let_def)
  then have "sent (onClose w s0) = sent s @ ms"
    using ms(1) assms by simp
  then show ?thesis using ms(2) by (auto simp: newMsgs_def)
qed

lemma answers_only_forwarded:
  assumes "(p, Forwarded (Answer a)) \<in> set (newMsgs s (step cfg s e))"
  shows "\<exists>w now rnd. e = Message w (Answer a) now rnd"
proof (cases e)
  case Connection
  then show ?thesis using assms by (simp add: onConnection_def Let_def newMsgs_def)
next
  case (Message w frm now rnd)
  show ?thesis
  proof (cases "w < nextWs s \<and> readyStates s w \<noteq> CLOSED")
    case False
    then show ?thesis using assms Message by (auto simp: newMsgs_def)
  next
    case True
    then have st: "step cfg s e = onMessage cfg now rnd w frm s" using Message by simp
    have "frm = Answer a"
      using assms handleJoin_no_forward [of p "Answer a" s cfg now rnd w]
        handleSignaling_forwards [of p "Answer a" s w frm]
        broadcastToRoom_forwards [of p "Answer a" s "currentRoom s w" w frm]
      by (cases frm) (auto simp: st onMessage_def newMsgs_def split: if_splits)
    then show ?thesis using Message by simp
  qed
next
  case (Down w)
  then show ?thesis using assms by (auto simp: newMsgs_def)
next
  case (Close w)
  have "(p, Forwarded (Answer a)) \<notin> set (newMsgs s (onClose w (s\<lparr>readyStates := (readyStates s)(w := CLOSED)\<rparr>)))"
    by (rule onClose_no_forward) simp
  then show ?thesis using assms Close by (auto simp: newMsgs_def split: if_splits)
next
  case (Sweep now)
  obtain ms where "sent (sweepRooms cfg now (rooms s) s) = sent s @ ms" "\<forall>x\<in>set ms. snd x = RoomExpired"
    using sweepRooms_sent by blast
  then show ?thesis using assms Sweep by (auto simp: newMsgs_def sweep_def)
qed

text \<open>
  C6, at the failing input. Sockets 0 and 1 share room \<open>AAAAAA\<close>; socket 0 leaves the
  \<open>OPEN\<close> state; socket 1 sends an \<open>answer\<close>, which is stored in \<open>pendingAnswer\<close>; socket 0
  closes and socket 2 joins. No \<open>answer\<close> was sent to anyone, and the stored answer is still
  in the slot: no handler reads \<open>pendingAnswer\<close>.
\<close>

theorem pending_answer_never_drained:
  "rooms (run default_config init_broker lost_answer_events) =
     [(''AAAAAA'', \<lparr>peers = [1, 2], createdAt = 1000,
        peerIds = [(0, ''peer1''), (1, ''peer2''), (2, ''peer2'')],
        pendingOffer = Absent, pendingAnswer = Obj 7\<rparr>)] \<and>
   sent (run default_config init_broker lost_answer_events) =
     [(0, Connected), (1, Connected), (2, Connected),
      (0, Joined ''AAAAAA'' (Some ''peer1'') Sender None),
      (0, Joined ''AAAAAA'' (Some ''peer1'') Sender (Some 2)),
      (1, Joined ''AAAAAA'' (Some ''peer2'') Receiver (Some 2)),
      (1, PeerDisconnected),
      (1, Joined ''AAAAAA'' (Some ''peer2'') Sender (Some 2)),
      (2, Joined ''AAAAAA'' (Some ''peer2'') Receiver (Some 2))]"
proof -
  have "run default_config init_broker lost_answer_events =
        run default_config two_peers_state
          [Down 0, Message 1 (Answer (Obj 7)) 2500 zero_draws, Close 0,
           Message 2 (Join False (Some ''AAAAAA'')) 3000 zero_draws]"
    by (simp add: lost_answer_events_def run_def two_peers_state_def)
  then show ?thesis
    by (simp add: two_peers_eval run_def onClose_def lookupRoom_def two_peers_room_def Let_def
          setRoom_def onMessage_def handleJoin_def handleSignaling_def default_config_def truthy_def)
qed

section \<open>Properties of the transfer engine\<close>

subsection \<open>Chunk counts and header fields\<close>

lemma CHUNK_SIZE_pos [simp]: "0 < CHUNK_SIZE"
  by (simp add: CHUNK_SIZE_def)

lemma ceilDiv_less_iff: "0 < d \<Longrightarrow> m < ceilDiv s d \<longleftrightarrow> m * d < s"
proof -
  assume d: "0 < d"
  have "m < ceilDiv s d \<longleftrightarrow> Suc m \<le> (s + d - 1) div d"
    by (simp add: ceilDiv_def Suc_le_eq)
  also have "\<dots> \<longleftrightarrow> Suc m * d \<le> s + d - 1"
    using d by (simp add: less_eq_div_iff_mult_less_eq)
  also have "\<dots> \<longleftrightarrow> m * d < s"
    using d by auto
  finally show ?thesis .
qed

lemma ceilDiv_covers: "0 < d \<Longrightarrow> s \<le> ceilDiv s d * d"
  using ceilDiv_less_iff [of d "ceilDiv s d" s] by (simp add: not_less [symmetric])

lemma ceilDiv_zero: "0 < d \<Longrightarrow> ceilDiv s d = 0 \<longleftrightarrow> s = 0"
  using ceilDiv_less_iff [of d 0 s] by auto

lemma length_setUint32 [simp]: "length (setUint32 v) = 4"
  by (simp add: setUint32_def Let_def)

lemma unat_byte: "unat (of_nat x :: byte) = x mod 256"
  by (simp add: unat_of_nat)

lemma le32_sum:
  "(w::nat) mod 256 + 256 * (w div 256 mod 256) + 65536 * (w div 65536 mod 256) +
   16777216 * (w div 16777216) = w"
proof -
  have b: "w div 65536 = w div 256 div 256" by (simp add: div_mult2_eq [symmetric])
  have c: "w div 16777216 = w div 256 div 256 div 256" by (simp add: div_mult2_eq [symmetric])
  show ?thesis unfolding b c
    using div_mult_mod_eq [of w 256] div_mult_mod_eq [of "w div 256" 256]
      div_mult_mod_eq [of "w div 256 div 256" 256]
    by linarith
qed

lemma getUint32_setUint32:
  "getUint32 (pre @ setUint32 v @ post) (length pre) = v mod 2 ^ 32"
  by (simp add: getUint32_def setUint32_def Let_def nth_append unat_byte le32_sum)

lemma length_encodeChunk [simp]: "length (encodeChunk i t c) = 13 + length c"
  by (simp add: encodeChunk_def)

lemma encodeChunk_tag [simp]: "encodeChunk i t c ! 0 = 1"
  by (simp add: encodeChunk_def)

lemma encodeChunk_index: "getUint32 (encodeChunk i t c) (Suc 0) = i mod 2 ^ 32"
  using getUint32_setUint32 [of "[1]" i "setUint32 t @ setUint32 (length c) @ c"]
  by (simp add: encodeChunk_def)

lemma encodeChunk_total: "getUint32 (encodeChunk i t c) 5 = t mod 2 ^ 32"
  using getUint32_setUint32 [of "[1] @ setUint32 i" t "setUint32 (length c) @ c"]
  by (simp add: encodeChunk_def)

lemma encodeChunk_length: "getUint32 (encodeChunk i t c) 9 = length c mod 2 ^ 32"
  using getUint32_setUint32 [of "[1] @ setUint32 i @ setUint32 t" "length c" c]
  by (simp add: encodeChunk_def)

lemma encodeChunk_data: "sliceBytes (encodeChunk i t c) 13 (13 + k) = take k c"
  by (simp add: encodeChunk_def sliceBytes_def)

lemma handle_encoded:
  "handleArrayBuffer (encodeChunk i t c) r =
     handleChunkWithSequence
       \<lparr>index = i mod 2 ^ 32, totalChunks = t mod 2 ^ 32, data = take (length c mod 2 ^ 32) c\<rparr> r"
  by (simp add: handleArrayBuffer_def encodeChunk_index encodeChunk_total
        encodeChunk_length encodeChunk_data)

lemmas sender_eval = sendFile_def sendFileChunks_def onload_def fileSize_def sliceBytes_def
  CHUNK_SIZE_def BUFFER_THRESHOLD_def ceilDiv_def encodeChunk_def setUint32_def Let_def

lemmas receiver_eval = receiveAll_def runTasks_def messageEvents_def deliver_def settle_def
  removeAt_def handleDataChannelMessage_def handleArrayBuffer_def handleFileMetadata_def
  handleFileComplete_def handleChunkWithSequence_def sendChunkAck_def addReceivedChunk_def
  getUint32_def sliceBytes_def CHUNK_SIZE_def ceilDiv_def Let_def idle_receiver_def
  placeholderSize_def push_def MAX_ARRAY_LENGTH_def

lemma length_zeros [simp]: "length (zeros k) = k"
  by (simp add: zeros_def)

subsection \<open>What the sender emits\<close>

lemma onload_closed:
  "\<not> fst obs \<Longrightarrow> onload f cks obs st = ([], st, Some Rejected)"
  by (simp add: onload_def)

lemma onload_deferred:
  "fst obs \<Longrightarrow> BUFFER_THRESHOLD < snd obs \<Longrightarrow>
   onload f cks obs st = ([], st, if offset st < fileSize f then None else Some Stalled)"
  by (simp add: onload_def)

lemma onload_sent:
  assumes "ready obs" and "offset st = chunkIndex st * CHUNK_SIZE"
  shows "onload f cks obs st =
     (if Suc (chunkIndex st) < chunkCount f
      then ([chunkFrame f (chunkIndex st)],
            \<lparr>offset = Suc (chunkIndex st) * CHUNK_SIZE, chunkIndex = Suc (chunkIndex st),
             bytesSent = bytesSent st + length (chunkAt f (chunkIndex st))\<rparr>, None)
      else ([chunkFrame f (chunkIndex st), completeFrame f cks],
            \<lparr>offset = Suc (chunkIndex st) * CHUNK_SIZE, chunkIndex = Suc (chunkIndex st),
             bytesSent = bytesSent st + length (chunkAt f (chunkIndex st))\<rparr>, Some Resolved))"
proof -
  have "Suc (chunkIndex st) < chunkCount f \<longleftrightarrow> offset st + CHUNK_SIZE < fileSize f"
    using assms(2) by (simp add: chunkCount_def ceilDiv_less_iff add.commute)
  then show ?thesis
    using assms
    by (simp add: onload_def ready_def Let_def chunkFrame_def chunkAt_def completeFrame_def
          chunkCount_def)
qed

lemma onload_cases:
  assumes "onload f cks (opn, buffered) st = (fs, st1, nxt)"
  shows "(fs = [] \<and> st1 = st \<and> (\<not> opn \<or> BUFFER_THRESHOLD < buffered)) \<or>
         (opn \<and> buffered \<le> BUFFER_THRESHOLD \<and>
          (\<exists>x. length x \<le> CHUNK_SIZE + 13 \<and>
               (fs = [Binary x] \<and> nxt = None \<or>
                fs = [Binary x, Text (FileComplete (fileName f)
                        (Some (ceilDiv (fileSize f) CHUNK_SIZE)) cks)] \<and> nxt = Some Resolved)))"
proof -
  have len: "length (encodeChunk (chunkIndex st) (ceilDiv (fileSize f) CHUNK_SIZE)
      (sliceBytes (content f) (offset st) (offset st + CHUNK_SIZE))) \<le> CHUNK_SIZE + 13"
    by (simp add: sliceBytes_def)
  show ?thesis
    using assms len
    by (auto simp: onload_def Let_def split: if_splits)
qed

lemma sendLoop_resolved:
  assumes "sendLoop f cks env st = (fs, Resolved)" and "offset st = chunkIndex st * CHUNK_SIZE"
  shows "fs = map (chunkFrame f) [chunkIndex st..<max (Suc (chunkIndex st)) (chunkCount f)] @
              [completeFrame f cks]"
  using assms
proof (induction env arbitrary: st fs)
  case Nil
  then show ?case by simp
next
  case (Cons obs env)
  show ?case
  proof (cases "fst obs")
    case False
    then show ?thesis using Cons.prems by (simp add: onload_closed)
  next
    case opn: True
    show ?thesis
    proof (cases "BUFFER_THRESHOLD < snd obs")
      case True
      then have "sendLoop f cks env st = (fs, Resolved)"
        using Cons.prems(1) opn
        by (simp add: onload_deferred split: if_splits prod.splits)
      then show ?thesis using Cons.IH Cons.prems(2) by blast
    next
      case False
      then have rdy: "ready obs" using opn by (simp add: ready_def)
      let ?k = "chunkIndex st"
      let ?st1 = "\<lparr>offset = Suc ?k * CHUNK_SIZE, chunkIndex = Suc ?k,
             bytesSent = bytesSent st + length (chunkAt f ?k)\<rparr>"
      show ?thesis
      proof (cases "Suc ?k < chunkCount f")
        case True
        then obtain gs where gs: "sendLoop f cks env ?st1 = (gs, Resolved)" "fs = chunkFrame f ?k # gs"
          using Cons.prems(1) onload_sent [OF rdy Cons.prems(2), of f cks]
          by (auto split: prod.splits)
        have "gs = map (chunkFrame f) [Suc ?k..<max (Suc (Suc ?k)) (chunkCount f)] @ [completeFrame f cks]"
          using Cons.IH [OF gs(1)] by simp
        moreover have "max (Suc (Suc ?k)) (chunkCount f) = chunkCount f"
          "max (Suc ?k) (chunkCount f) = chunkCount f" using True by auto
        moreover have "[?k..<chunkCount f] = ?k # [Suc ?k..<chunkCount f]"
          using True by (simp add: upt_conv_Cons)
        ultimately show ?thesis using gs(2) by simp
      next
        case False
        then have "fs = [chunkFrame f ?k, completeFrame f cks]"
          using Cons.prems(1) onload_sent [OF rdy Cons.prems(2), of f cks] by simp
        moreover have "max (Suc ?k) (chunkCount f) = Suc ?k" using False by auto
        ultimately show ?thesis by simp
      qed
    qed
  qed
qed


lemma sendFile_resolved:
  assumes "sendFile f cks connected opn env = (frames, Resolved)"
  shows "frames = expectedFrames f cks"
proof -
  from assms obtain fs where
    fs: "sendLoop f cks env \<lparr>offset = 0, chunkIndex = 0, bytesSent = 0\<rparr> = (fs, Resolved)"
      and frames: "frames = metadataFrame f # fs"
    by (auto simp: sendFile_def sendFileChunks_def metadataFrame_def split: if_splits prod.splits)
  have "fs = map (chunkFrame f) [0..<max (Suc 0) (chunkCount f)] @ [completeFrame f cks]"
    using sendLoop_resolved [OF fs] by simp
  then show ?thesis using frames by (simp add: expectedFrames_def)
qed


subsection \<open>The event loop\<close>

lemma receiveAll_Nil [simp]: "receiveAll r [] = r"
  by (simp add: receiveAll_def runTasks_def messageEvents_def)

lemma receiveAll_Cons:
  "receiveAll r (fr # frs) =
     receiveAll (settle (handleDataChannelMessage r (deliver AsArrayBuffer fr))) frs"
  by (simp add: receiveAll_def runTasks_def messageEvents_def)

lemma receiveAll_snoc:
  "receiveAll r (frs @ [fr]) =
     settle (handleDataChannelMessage (receiveAll r frs) (deliver AsArrayBuffer fr))"
  by (simp add: receiveAll_def runTasks_def messageEvents_def)

lemma receive_binary:
  "settle (handleDataChannelMessage r (deliver AsArrayBuffer (Binary ab))) = handleArrayBuffer ab r"
  by (simp add: handleDataChannelMessage_def deliver_def settle_def)

lemma receive_encoded:
  "settle (handleDataChannelMessage r (deliver AsArrayBuffer (Binary (encodeChunk i t c)))) =
     handleChunkWithSequence
       \<lparr>index = i mod 2 ^ 32, totalChunks = t mod 2 ^ 32, data = take (length c mod 2 ^ 32) c\<rparr> r"
  by (simp add: receive_binary handle_encoded)

lemma settle_None: "snd res = None \<Longrightarrow> settle res = fst res"
  by (cases res) (simp add: settle_def)

lemma settle_plain [simp]: "settle (s, None) = s"
  by (simp add: settle_def)

lemma settle_fields [simp]:
  "currentFile (settle res) = currentFile (fst res)"
  "chunkMap (settle res) = chunkMap (fst res)"
  "receivedChunks (settle res) = receivedChunks (fst res)"
  "receivedChunkIndices (settle res) = receivedChunkIndices (fst res)"
  "expectedChunkCount (settle res) = expectedChunkCount (fst res)"
  "bytesTransferred (settle res) = bytesTransferred (fst res)"
  "channelOpen (settle res) = channelOpen (fst res)"
  "sentMessages (settle res) = sentMessages (fst res)"
  "errors (settle res) = errors (fst res)"
  "warnings (settle res) = warnings (fst res)"
  "receivedFiles (settle res) = receivedFiles (fst res)"
  "reading (settle res) = reading (fst res)"
  by (cases res; simp add: settle_def split: option.splits)+

lemma handleFileMetadata_fields [simp]:
  "currentFile (handleFileMetadata nm sz ty lm r) =
     Some \<lparr>name = nm, fsize = sz, type = (if ty \<noteq> [] then ty else ''file-metadata''),
           lastModified = lm\<rparr>"
  "chunkMap (handleFileMetadata nm sz ty lm r) = []"
  "receivedChunks (handleFileMetadata nm sz ty lm r) = []"
  "receivedChunkIndices (handleFileMetadata nm sz ty lm r) = {}"
  "expectedChunkCount (handleFileMetadata nm sz ty lm r) = ceilDiv sz CHUNK_SIZE"
  "errors (handleFileMetadata nm sz ty lm r) = errors r"
  "warnings (handleFileMetadata nm sz ty lm r) = warnings r"
  "receivedFiles (handleFileMetadata nm sz ty lm r) = receivedFiles r"
  "uncaught (handleFileMetadata nm sz ty lm r) = uncaught r"
  "reading (handleFileMetadata nm sz ty lm r) = reading r"
  by (simp_all add: handleFileMetadata_def)

lemma receive_metadata:
  "settle (handleDataChannelMessage r (deliver AsArrayBuffer (metadataFrame f))) =
     handleFileMetadata (fileName f) (fileSize f) (fileType f) (fileLastModified f) r"
  by (simp add: handleDataChannelMessage_def metadataFrame_def deliver_def settle_def)

lemma receive_complete:
  "settle (handleDataChannelMessage r (deliver AsArrayBuffer (completeFrame f cks))) =
     settle (handleFileComplete (Some (chunkCount f)) cks r)"
  by (simp add: handleDataChannelMessage_def completeFrame_def chunkCount_def deliver_def)





subsection \<open>Reassembly\<close>

text \<open>
  The two loops of \<open>handleFileComplete\<close> in closed form: they throw exactly when the array
  they fill would grow beyond \<open>MAX_ARRAY_LENGTH\<close>.
\<close>

lemma push_eq:
  "push xs x = (if length xs < MAX_ARRAY_LENGTH then Inr (xs @ [x]) else Inl RangeError)"
  by (simp add: push_def)

lemma reassemble_loop_eq:
  "length acc \<le> MAX_ARRAY_LENGTH \<Longrightarrow>
   reassemble_loop cm d n i acc ts =
     (if length acc + (n - i) \<le> MAX_ARRAY_LENGTH
      then Inr (acc @ map (piece cm d n) [i..<n],
                ts + sum_list (map (\<lambda>j. length (piece cm d n j)) [i..<n]))
      else Inl RangeError)"
proof (induction cm d n i acc ts rule: reassemble_loop.induct)
  case (1 cm d n i acc ts)
  show ?case
  proof (cases "i < n")
    case False
    then show ?thesis using "1.prems" by (subst reassemble_loop.simps) simp
  next
    case True
    then have upt: "[i..<n] = i # [Suc i..<n]" by (simp add: upt_conv_Cons)
    show ?thesis
    proof (cases "length acc < MAX_ARRAY_LENGTH")
      case False
      then show ?thesis using True
        by (subst reassemble_loop.simps) (auto simp: push_eq split: option.splits)
    next
      case room: True
      show ?thesis
      proof (cases "map_of cm i")
        case None
        have p: "push acc (replicate (placeholderSize d n i) 0) =
            Inr (acc @ [replicate (placeholderSize d n i) 0])"
          using room by (simp add: push_eq)
        have "length (acc @ [replicate (placeholderSize d n i) 0]) \<le> MAX_ARRAY_LENGTH"
          using room by simp
        from "1.IH"(1) [OF True None p this]
        show ?thesis using True None room
          by (subst reassemble_loop.simps) (auto simp: p upt piece_def)
      next
        case (Some c)
        have p: "push acc c = Inr (acc @ [c])"
          using room by (simp add: push_eq)
        have "length (acc @ [c]) \<le> MAX_ARRAY_LENGTH" using room by simp
        from "1.IH"(2) [OF True Some p this]
        show ?thesis using True Some room
          by (subst reassemble_loop.simps) (auto simp: p upt piece_def)
      qed
    qed
  qed
qed

lemma missingChunks_loop_eq:
  "length missing \<le> MAX_ARRAY_LENGTH \<Longrightarrow>
   missingChunks_loop r n i missing =
     (if length (missing @ filter (\<lambda>j. j \<notin> receivedChunkIndices r \<and> map_of (chunkMap r) j = None)
                  [i..<n]) \<le> MAX_ARRAY_LENGTH
      then Inr (missing @
             filter (\<lambda>j. j \<notin> receivedChunkIndices r \<and> map_of (chunkMap r) j = None) [i..<n])
      else Inl RangeError)"
proof (induction r n i missing rule: missingChunks_loop.induct)
  case (1 r n i missing)
  show ?case
  proof (cases "i < n")
    case False
    then show ?thesis using "1.prems" by (subst missingChunks_loop.simps) simp
  next
    case True
    then have upt: "[i..<n] = i # [Suc i..<n]" by (simp add: upt_conv_Cons)
    show ?thesis
    proof (cases "i \<notin> receivedChunkIndices r \<and> map_of (chunkMap r) i = None")
      case False
      from "1.IH"(2) [OF True False "1.prems"]
      show ?thesis using True False
        by (subst missingChunks_loop.simps) (auto simp: upt)
    next
      case miss: True
      show ?thesis
      proof (cases "length missing < MAX_ARRAY_LENGTH")
        case False
        then show ?thesis using True miss
          by (subst missingChunks_loop.simps) (auto simp: push_eq upt)
      next
        case room: True
        have p: "push missing i = Inr (missing @ [i])" using room by (simp add: push_eq)
        have "length (missing @ [i]) \<le> MAX_ARRAY_LENGTH" using room by simp
        from "1.IH"(1) [OF True miss p this]
        show ?thesis using True miss
          by (subst missingChunks_loop.simps) (auto simp: p upt)
      qed
    qed
  qed
qed



lemma concat_chunks:
  "concat (map (\<lambda>k. sliceBytes bs (k * c) (k * c + c)) [0..<m]) = take (m * c) bs"
proof (induction m)
  case 0
  then show ?case by simp
next
  case (Suc m)
  have "take (m * c) bs @ take c (drop (m * c) bs) = take (m * c + c) bs"
    by (simp add: take_add)
  then show ?case using Suc by (simp add: sliceBytes_def add.commute)
qed

lemma concat_chunkAt: "concat (map (chunkAt f) [0..<chunkCount f]) = content f"
proof -
  have "fileSize f \<le> chunkCount f * CHUNK_SIZE"
    unfolding chunkCount_def by (rule ceilDiv_covers) simp
  then have "take (chunkCount f * CHUNK_SIZE) (content f) = content f"
    by (simp add: fileSize_def)
  moreover have "concat (map (chunkAt f) [0..<chunkCount f]) =
      take (chunkCount f * CHUNK_SIZE) (content f)"
    unfolding chunkAt_def by (rule concat_chunks)
  ultimately show ?thesis by simp
qed

lemma length_chunkAt_le: "length (chunkAt f k) \<le> CHUNK_SIZE"
  by (simp add: chunkAt_def sliceBytes_def)

lemma length_chunkAt_full:
  assumes "Suc k < chunkCount f" shows "length (chunkAt f k) = CHUNK_SIZE"
proof -
  have "Suc k * CHUNK_SIZE < fileSize f"
    using assms by (simp add: chunkCount_def ceilDiv_less_iff)
  then show ?thesis by (simp add: chunkAt_def sliceBytes_def fileSize_def)
qed


lemma map_of_indexed_None: "\<not> i < m \<Longrightarrow> map_of (map (\<lambda>k. (k, g k)) [0..<m]) i = None"
  by (induction m) (auto simp: map_add_def)

lemma map_of_indexed: "i < m \<Longrightarrow> map_of (map (\<lambda>k. (k, g k)) [0..<m]) i = Some (g i)"
  by (induction m) (auto simp: less_Suc_eq map_add_def map_of_indexed_None split: option.splits)

lemma receive_chunk_frames:
  assumes "chunkCount f < 2 ^ 32" and "m \<le> chunkCount f" and "currentFile r \<noteq> None"
      and "chunkMap r = []" and "receivedChunkIndices r = {}"
  shows "let r1 = receiveAll r (map (chunkFrame f) [0..<m])
         in chunkMap r1 = map (\<lambda>k. (k, chunkAt f k)) [0..<m] \<and>
            receivedChunkIndices r1 = {0..<m} \<and>
            currentFile r1 = currentFile r \<and> receivedChunks r1 = receivedChunks r \<and>
            expectedChunkCount r1 = expectedChunkCount r \<and>
            errors r1 = errors r \<and> warnings r1 = warnings r \<and>
            receivedFiles r1 = receivedFiles r \<and> uncaught r1 = uncaught r"
  using assms(2)
proof (induction m)
  case 0
  then show ?case using assms by simp
next
  case (Suc m)
  let ?r1 = "receiveAll r (map (chunkFrame f) [0..<m])"
  have ih: "chunkMap ?r1 = map (\<lambda>k. (k, chunkAt f k)) [0..<m]"
    "receivedChunkIndices ?r1 = {0..<m}" "currentFile ?r1 = currentFile r"
    "receivedChunks ?r1 = receivedChunks r" "expectedChunkCount ?r1 = expectedChunkCount r"
    "errors ?r1 = errors r" "warnings ?r1 = warnings r" "receivedFiles ?r1 = receivedFiles r"
    "uncaught ?r1 = uncaught r"
    using Suc by (simp_all add: Let_def)
  have m: "m < chunkCount f" using Suc.prems by simp
  then have m32: "m mod 2 ^ 32 = m" "chunkCount f mod 2 ^ 32 = chunkCount f"
    using assms(1) by simp_all
  have "length (chunkAt f m) \<le> CHUNK_SIZE" by (rule length_chunkAt_le)
  then have "length (chunkAt f m) < 2 ^ 32" by (simp add: CHUNK_SIZE_def)
  then have len: "take (length (chunkAt f m) mod 2 ^ 32) (chunkAt f m) = chunkAt f m" by simp
  have step: "receiveAll r (map (chunkFrame f) [0..<Suc m]) =
      handleChunkWithSequence \<lparr>index = m, totalChunks = chunkCount f, data = chunkAt f m\<rparr> ?r1"
    using receive_encoded [of ?r1 m "chunkCount f" "chunkAt f m"] m32 len
    by (simp add: receiveAll_snoc chunkFrame_def chunkCount_def)
  have fresh: "m \<notin> fst ` set (map (\<lambda>k. (k, chunkAt f k)) [0..<m])" by auto
  have upd: "AList.update m (chunkAt f m) (map (\<lambda>k. (k, chunkAt f k)) [0..<m]) =
      map (\<lambda>k. (k, chunkAt f k)) [0..<Suc m]"
    using update_fresh [OF fresh] by simp
  have set: "insert m {0..<m} = {0..<Suc m}" by auto
  show ?case
    unfolding Let_def step
    using m ih assms(3) upd set
    by (simp add: handleChunkWithSequence_def sendChunkAck_def)
qed

lemma complete_sequenced:
  assumes "0 < chunkCount f" and "chunkCount f < 2 ^ 32" and "currentFile r = Some (infoOf f)"
      and "\<forall>i<chunkCount f. map_of (chunkMap r) i = Some (chunkAt f i)"
      and "length (chunkMap r) = chunkCount f"
  shows "snd (handleFileComplete (Some (chunkCount f)) cks r) = None"
    and "receivedFiles (fst (handleFileComplete (Some (chunkCount f)) cks r)) =
           receivedFiles r @ [(infoOf f, content f)]"
    and "errors (fst (handleFileComplete (Some (chunkCount f)) cks r)) = errors r"
    and "warnings (fst (handleFileComplete (Some (chunkCount f)) cks r)) = warnings r"
    and "uncaught (fst (handleFileComplete (Some (chunkCount f)) cks r)) = uncaught r"
proof -
  let ?n = "chunkCount f"
  have pieces: "map (piece (chunkMap r) (fileSize f) ?n) [0..<?n] = map (chunkAt f) [0..<?n]"
    by (rule map_cong) (simp_all add: piece_def assms(4))
  have sizes: "sum_list (map (\<lambda>j. length (piece (chunkMap r) (fileSize f) ?n j)) [0..<?n]) =
      length (concat (map (piece (chunkMap r) (fileSize f) ?n) [0..<?n]))"
    by (simp add: length_concat comp_def)
  have total: "sum_list (map (\<lambda>j. length (piece (chunkMap r) (fileSize f) ?n j)) [0..<?n]) = fileSize f"
    unfolding sizes pieces concat_chunkAt by (simp add: fileSize_def)
  note len = assms(5)
  have fits: "?n \<le> MAX_ARRAY_LENGTH" using assms(2) by (simp add: MAX_ARRAY_LENGTH_def)
  have re: "reassemble_loop (chunkMap r) (fileSize f) ?n 0 [] 0 =
      Inr (map (chunkAt f) [0..<?n], fileSize f)"
    using fits by (simp add: reassemble_loop_eq pieces total)
  have fs: "fsize (infoOf f) = fileSize f" by (simp add: infoOf_def)
  have "handleFileComplete (Some ?n) cks r =
      (r\<lparr>currentFile := None, receivedChunks := [], chunkMap := [],
          receivedChunkIndices := {}, expectedChunkCount := 0,
          receivedFiles := receivedFiles r @ [(infoOf f, content f)]\<rparr>, None)"
    using assms(1,3) len re
    by (simp add: handleFileComplete_def Let_def fs concat_chunkAt)
  then show "snd (handleFileComplete (Some (chunkCount f)) cks r) = None"
    and "receivedFiles (fst (handleFileComplete (Some (chunkCount f)) cks r)) =
           receivedFiles r @ [(infoOf f, content f)]"
    and "errors (fst (handleFileComplete (Some (chunkCount f)) cks r)) = errors r"
    and "warnings (fst (handleFileComplete (Some (chunkCount f)) cks r)) = warnings r"
    and "uncaught (fst (handleFileComplete (Some (chunkCount f)) cks r)) = uncaught r"
    by simp_all
qed


lemma storedBytes_chunks:
  "chunkMap r = map (\<lambda>k. (k, chunkAt f k)) [0..<chunkCount f] \<Longrightarrow> storedBytes r = fileSize f"
proof -
  assume cm: "chunkMap r = map (\<lambda>k. (k, chunkAt f k)) [0..<chunkCount f]"
  have "storedBytes r = length (concat (map (chunkAt f) [0..<chunkCount f]))"
    by (simp add: storedBytes_def cm length_concat comp_def)
  then show ?thesis by (simp add: concat_chunkAt fileSize_def)
qed

lemma dropped_frame:
  assumes "i mod 2 ^ 32 \<ge> t mod 2 ^ 32"
  shows "settle (handleDataChannelMessage r (deliver AsArrayBuffer (Binary (encodeChunk i t c)))) = r"
  using assms by (simp add: receive_encoded handleChunkWithSequence_def)

lemma dropped_frames:
  assumes "chunkCount f mod 2 ^ 32 = 0"
  shows "receiveAll r (map (chunkFrame f) ks) = r"
proof (induction ks arbitrary: r)
  case Nil
  then show ?case by simp
next
  case (Cons k ks)
  have "settle (handleDataChannelMessage r (deliver AsArrayBuffer (chunkFrame f k))) = r"
    unfolding chunkFrame_def using assms by (intro dropped_frame) (simp add: chunkCount_def)
  then show ?case using Cons by (simp add: receiveAll_Cons)
qed

lemma receive_expectedFrames:
  "receiveAll r (expectedFrames f cks) =
     settle (handleFileComplete (Some (chunkCount f)) cks
       (receiveAll (handleFileMetadata (fileName f) (fileSize f) (fileType f) (fileLastModified f) r)
          (map (chunkFrame f) [0..<max 1 (chunkCount f)])))"
  unfolding expectedFrames_def receiveAll_Cons receive_metadata
  by (simp only: append_assoc [symmetric] receiveAll_snoc receive_complete)

lemma butlast_expectedFrames:
  "butlast (expectedFrames f cks) = metadataFrame f # map (chunkFrame f) [0..<max 1 (chunkCount f)]"
  by (simp add: expectedFrames_def butlast_append)

lemma receive_file:
  assumes "chunkCount f < 2 ^ 32"
  shows "receivedFiles (receiveAll r (expectedFrames f cks)) = receivedFiles r @ [(infoOf f, content f)]"
    and "errors (receiveAll r (expectedFrames f cks)) = errors r"
    and "warnings (receiveAll r (expectedFrames f cks)) = warnings r"
    and "uncaught (receiveAll r (expectedFrames f cks)) = uncaught r"
    and "storedBytes (receiveAll r (butlast (expectedFrames f cks))) = fileSize f"
proof -
  let ?r0 = "handleFileMetadata (fileName f) (fileSize f) (fileType f) (fileLastModified f) r"
  let ?r1 = "receiveAll ?r0 (map (chunkFrame f) [0..<max 1 (chunkCount f)])"
  have bl: "receiveAll r (butlast (expectedFrames f cks)) = ?r1"
    by (simp add: butlast_expectedFrames receiveAll_Cons receive_metadata)
  have all: "receivedFiles (receiveAll r (expectedFrames f cks)) = receivedFiles r @ [(infoOf f, content f)]
      \<and> errors (receiveAll r (expectedFrames f cks)) = errors r
      \<and> warnings (receiveAll r (expectedFrames f cks)) = warnings r
      \<and> uncaught (receiveAll r (expectedFrames f cks)) = uncaught r
      \<and> storedBytes ?r1 = fileSize f"
  proof (cases "chunkCount f = 0")
    case True
    then have sz: "fileSize f = 0" by (simp add: chunkCount_def ceilDiv_zero)
    then have c: "content f = []" by (simp add: fileSize_def)
    have r1: "?r1 = ?r0"
      using True by (intro dropped_frames) simp
    have "handleFileComplete (Some (chunkCount f)) cks ?r0 =
       (?r0\<lparr>currentFile := None, expectedChunkCount := 0,
            receivedFiles := receivedFiles r @ [(infoOf f, [])]\<rparr>, None)"
      using True sz by (simp add: handleFileComplete_def handleFileMetadata_def Let_def infoOf_def
            ceilDiv_def)
    then show ?thesis
      unfolding receive_expectedFrames r1 using c sz by (simp add: storedBytes_def settle_def)
  next
    case False
    then have pos: "0 < chunkCount f" by simp
    then have mx: "max 1 (chunkCount f) = chunkCount f" "max (Suc 0) (chunkCount f) = chunkCount f"
      by simp_all
    have st: "chunkMap ?r1 = map (\<lambda>k. (k, chunkAt f k)) [0..<chunkCount f]"
       "currentFile ?r1 = Some (infoOf f)" "errors ?r1 = errors r" "warnings ?r1 = warnings r"
       "receivedFiles ?r1 = receivedFiles r" "uncaught ?r1 = uncaught r"
      using receive_chunk_frames [OF assms, of "chunkCount f" ?r0]
      by (simp_all add: mx Let_def infoOf_def)
    have all: "\<forall>i<chunkCount f. map_of (chunkMap ?r1) i = Some (chunkAt f i)"
      and len: "length (chunkMap ?r1) = chunkCount f"
      unfolding st(1) by (simp_all add: map_of_indexed)
    note cs = complete_sequenced [OF pos assms st(2) all len, of cks]
    show ?thesis
      unfolding receive_expectedFrames settle_None [OF cs(1)]
      using cs(2-5) st(3-6) storedBytes_chunks [OF st(1)]
      by simp
  qed
  then show "receivedFiles (receiveAll r (expectedFrames f cks)) = receivedFiles r @ [(infoOf f, content f)]"
    and "errors (receiveAll r (expectedFrames f cks)) = errors r"
    and "warnings (receiveAll r (expectedFrames f cks)) = warnings r"
    and "uncaught (receiveAll r (expectedFrames f cks)) = uncaught r"
    and "storedBytes (receiveAll r (butlast (expectedFrames f cks))) = fileSize f"
    using bl by simp_all
qed

subsection \<open>Transfers under any schedule of the readers\<close>














subsection \<open>Round trip\<close>








subsection \<open>Duplicates\<close>

lemma handleChunk_inv: "recv_inv r \<Longrightarrow> recv_inv (handleChunkWithSequence c r)"
  by (auto simp: recv_inv_def handleChunkWithSequence_def sendChunkAck_def distinct_update dom_update)

lemma settle_inv: "recv_inv (fst res) \<Longrightarrow> recv_inv (settle res)"
  by (cases res) (simp add: settle_def recv_inv_def split: option.splits)

lemma handleFileComplete_inv: "recv_inv r \<Longrightarrow> recv_inv (fst (handleFileComplete ct cks r))"
  by (auto simp: handleFileComplete_def Let_def recv_inv_def
        split: option.splits sum.splits prod.splits)

lemma handleArrayBuffer_inv: "recv_inv r \<Longrightarrow> recv_inv (handleArrayBuffer ab r)"
  using handleChunk_inv [of r]
  by (auto simp: handleArrayBuffer_def addReceivedChunk_def recv_inv_def)

lemma handleMessage_inv: "recv_inv r \<Longrightarrow> recv_inv (fst (handleDataChannelMessage r d))"
proof (cases d)
  case (StringData m)
  assume "recv_inv r"
  then show ?thesis using StringData handleFileComplete_inv [of r]
    by (cases m) (auto simp: handleDataChannelMessage_def recv_inv_def handleFileMetadata_def)
next
  case (ArrayBufferData ab)
  assume "recv_inv r"
  then show ?thesis using ArrayBufferData
    by (simp add: handleDataChannelMessage_def handleArrayBuffer_inv)
next
  case (ViewData ab)
  assume "recv_inv r"
  then show ?thesis using ViewData
    by (simp add: handleDataChannelMessage_def handleArrayBuffer_inv)
next
  case (BlobData b)
  assume "recv_inv r"
  then show ?thesis using BlobData
    by (simp add: handleDataChannelMessage_def recv_inv_def)
next
  case OtherData
  assume "recv_inv r"
  then show ?thesis using OtherData by (simp add: handleDataChannelMessage_def)
qed

lemma runTask_inv: "recv_inv r \<Longrightarrow> recv_inv (runTask r t)"
proof (cases t)
  case (MessageEvent d)
  assume "recv_inv r"
  then show ?thesis using MessageEvent by (simp add: settle_inv handleMessage_inv)
next
  case (LoadEvent k)
  assume "recv_inv r"
  then have "recv_inv (r\<lparr>reading := removeAt k (reading r)\<rparr>)" by (simp add: recv_inv_def)
  then show ?thesis using LoadEvent \<open>recv_inv r\<close> by (simp add: settle_inv handleMessage_inv)
next
  case (ReadErrorEvent k)
  assume "recv_inv r"
  then show ?thesis using ReadErrorEvent by (simp add: recv_inv_def)
qed

lemma receiving_inv: "receiving r \<Longrightarrow> recv_inv r"
  by (induction rule: receiving.induct)
     (simp_all add: runTask_inv, simp_all add: recv_inv_def idle_receiver_def)

lemma receiving_runTasks: "receiving r \<Longrightarrow> receiving (runTasks r ts)"
proof (induction ts arbitrary: r)
  case Nil
  then show ?case by (simp add: runTasks_def)
next
  case (Cons t ts)
  have "receiving (runTask r t)" using Cons.prems by (rule receiving_task)
  then have "receiving (runTasks (runTask r t) ts)" by (rule Cons.IH)
  then show ?case by (simp add: runTasks_def)
qed

lemma chunk_frame_parsed:
  "13 \<le> length ab \<Longrightarrow> ab ! 0 = 1 \<Longrightarrow>
   handleDataChannelMessage r (ArrayBufferData ab) =
     (handleChunkWithSequence
        \<lparr>index = getUint32 ab 1, totalChunks = getUint32 ab 5,
         data = sliceBytes ab 13 (13 + getUint32 ab 9)\<rparr> r, None)"
  by (simp add: handleDataChannelMessage_def handleArrayBuffer_def)

lemma withoutAcks_handle:
  "withoutAcks (handleChunkWithSequence c r) = withoutAcks (handleChunkWithSequence c (withoutAcks r))"
  by (simp add: withoutAcks_def handleChunkWithSequence_def sendChunkAck_def)

lemma receiveChunks_Cons:
  "receiveChunks r (c # cs) = receiveChunks (handleChunkWithSequence c r) cs"
  by (simp add: receiveChunks_def)

lemma withoutAcks_receiveChunks:
  "withoutAcks r = withoutAcks r' \<Longrightarrow> withoutAcks (receiveChunks r cs) = withoutAcks (receiveChunks r' cs)"
proof (induction cs arbitrary: r r')
  case Nil
  then show ?case by (simp add: receiveChunks_def)
next
  case (Cons c cs)
  have "withoutAcks (handleChunkWithSequence c r) = withoutAcks (handleChunkWithSequence c r')"
    using withoutAcks_handle [of c r] withoutAcks_handle [of c r'] Cons.prems by simp
  then show ?case unfolding receiveChunks_Cons by (rule Cons.IH)
qed

lemma receiveChunks_no_file: "currentFile r = None \<Longrightarrow> receiveChunks r cs = r"
  by (induction cs) (simp_all add: receiveChunks_def handleChunkWithSequence_def)

lemma duplicate_ignored:
  "index c \<in> receivedChunkIndices r \<Longrightarrow> withoutAcks (handleChunkWithSequence c r) = withoutAcks r"
  by (simp add: withoutAcks_def handleChunkWithSequence_def sendChunkAck_def)

lemma fresh_indices:
  "currentFile r \<noteq> None \<Longrightarrow> index c \<notin> receivedChunkIndices r \<Longrightarrow>
   receivedChunkIndices (handleChunkWithSequence c r) =
     (if index c < totalChunks c then insert (index c) (receivedChunkIndices r)
      else receivedChunkIndices r) \<and>
   currentFile (handleChunkWithSequence c r) \<noteq> None"
  by (simp add: handleChunkWithSequence_def sendChunkAck_def)

lemma dropDuplicates_same:
  "withoutAcks (receiveChunks r cs) =
   withoutAcks (receiveChunks r (dropDuplicates (receivedChunkIndices r) cs))"
proof (cases "currentFile r = None")
  case True
  then show ?thesis by (simp add: receiveChunks_no_file)
next
  case False
  then show ?thesis
  proof (induction cs arbitrary: r)
    case Nil
    then show ?case by simp
  next
    case (Cons c cs)
    show ?case
    proof (cases "index c \<in> receivedChunkIndices r")
      case True
      have "withoutAcks (receiveChunks r (c # cs)) = withoutAcks (receiveChunks r cs)"
        unfolding receiveChunks_Cons
        by (rule withoutAcks_receiveChunks) (rule duplicate_ignored [OF True])
      then show ?thesis using True Cons.IH [OF Cons.prems] by simp
    next
      case False
      let ?r1 = "handleChunkWithSequence c r"
      have r1: "receivedChunkIndices ?r1 =
         (if index c < totalChunks c then insert (index c) (receivedChunkIndices r)
          else receivedChunkIndices r)" "currentFile ?r1 \<noteq> None"
        using fresh_indices [OF Cons.prems False] by simp_all
      show ?thesis
        using False Cons.IH [OF r1(2)] r1(1) by (simp add: receiveChunks_Cons)
    qed
  qed
qed

lemma dropDuplicates_distinct:
  "distinct (map index (filter (\<lambda>c. index c < totalChunks c) (dropDuplicates seen cs))) \<and>
   index ` set (filter (\<lambda>c. index c < totalChunks c) (dropDuplicates seen cs)) \<inter> seen = {}"
proof (induction cs arbitrary: seen)
  case Nil
  then show ?case by simp
next
  case (Cons c cs)
  show ?case
  proof (cases "index c \<in> seen")
    case True
    then show ?thesis using Cons.IH [of seen] by simp
  next
    case False
    show ?thesis
    proof (cases "index c < totalChunks c")
      case True
      then show ?thesis using False Cons.IH [of "insert (index c) seen"] by auto
    next
      case no: False
      then show ?thesis using False Cons.IH [of seen] by auto
    qed
  qed
qed

lemma complete_withoutAcks:
  assumes "withoutAcks r = withoutAcks r'"
  shows "receivedFiles (fst (handleFileComplete ct cks r)) =
           receivedFiles (fst (handleFileComplete ct cks r'))"
    and "snd (handleFileComplete ct cks r) = snd (handleFileComplete ct cks r')"
proof -
  note a = assms
  have f: "currentFile r = currentFile r'" "chunkMap r = chunkMap r'"
    "receivedChunks r = receivedChunks r'" "expectedChunkCount r = expectedChunkCount r'"
    "receivedFiles r = receivedFiles r'" "receivedChunkIndices r = receivedChunkIndices r'"
    using arg_cong [OF a, of currentFile] arg_cong [OF a, of chunkMap]
      arg_cong [OF a, of receivedChunks] arg_cong [OF a, of expectedChunkCount]
      arg_cong [OF a, of receivedFiles] arg_cong [OF a, of receivedChunkIndices]
    by (simp_all add: withoutAcks_def)
  have m: "missingChunks_loop r n 0 [] = missingChunks_loop r' n 0 []" for n
    by (simp add: missingChunks_loop_eq f)
  show "receivedFiles (fst (handleFileComplete ct cks r)) =
           receivedFiles (fst (handleFileComplete ct cks r'))"
    and "snd (handleFileComplete ct cks r) = snd (handleFileComplete ct cks r')"
    by (simp_all add: handleFileComplete_def Let_def f m split: option.splits sum.splits prod.splits)
qed

lemma first_chunk_state_eval:
  "first_chunk_state = idle_receiver\<lparr>
     currentFile := Some \<lparr>name = ''a.bin'', fsize = 3, type = ''bin'', lastModified = 42\<rparr>,
     chunkMap := [(0, [7, 8, 9])], receivedChunkIndices := {0}, expectedChunkCount := 1,
     bytesTransferred := 3, sentMessages := [ChunkAck 0]\<rparr>"
  by (simp add: first_chunk_state_def receiver_eval)

text \<open>
  C4. A chunk frame in range whose index is already in \<open>receivedChunkIndices\<close> is
  acknowledged (the channel being open) and changes nothing else of the receiver; a frame
  whose index is not below its \<open>totalChunks\<close> changes nothing at all. The keys of \<open>chunkMap\<close>
  stay distinct: an index is stored at most once. So for any sequence of chunk frames the
  receiver ends, acknowledgements apart, in the state it ends in on the sequence without
  the duplicates, in which every stored index occurs once; and \<open>file-complete\<close> delivers the
  same file, or throws the same exception, for both.
\<close>

theorem chunk_idempotence:
  "(receiving r \<and> index c \<in> receivedChunkIndices r \<and> index c < totalChunks c \<and> channelOpen r \<longrightarrow>
      handleChunkWithSequence c r = r\<lparr>sentMessages := sentMessages r @ [ChunkAck (index c)]\<rparr>) \<and>
   (totalChunks c \<le> index c \<longrightarrow> handleChunkWithSequence c r = r) \<and>
   (receiving r \<longrightarrow> distinct (map fst (chunkMap (receiveChunks r cs)))) \<and>
   withoutAcks (receiveChunks r cs) =
     withoutAcks (receiveChunks r (dropDuplicates (receivedChunkIndices r) cs)) \<and>
   receivedFiles (fst (handleFileComplete ct cks (receiveChunks r cs))) =
     receivedFiles (fst (handleFileComplete ct cks
        (receiveChunks r (dropDuplicates (receivedChunkIndices r) cs)))) \<and>
   snd (handleFileComplete ct cks (receiveChunks r cs)) =
     snd (handleFileComplete ct cks
        (receiveChunks r (dropDuplicates (receivedChunkIndices r) cs))) \<and>
   distinct (map index (filter (\<lambda>c. index c < totalChunks c)
        (dropDuplicates (receivedChunkIndices r) cs)))"
proof (intro conjI impI)
  assume a: "receiving r \<and> index c \<in> receivedChunkIndices r \<and> index c < totalChunks c \<and> channelOpen r"
  then have "recv_inv r" by (simp add: receiving_inv)
  then have "currentFile r \<noteq> None" using a by (auto simp: recv_inv_def)
  then show "handleChunkWithSequence c r = r\<lparr>sentMessages := sentMessages r @ [ChunkAck (index c)]\<rparr>"
    using a by (simp add: handleChunkWithSequence_def sendChunkAck_def)
next
  assume "totalChunks c \<le> index c"
  then show "handleChunkWithSequence c r = r" by (simp add: handleChunkWithSequence_def)
next
  assume "receiving r"
  then have "recv_inv r" by (rule receiving_inv)
  then have "recv_inv (receiveChunks r cs)"
    by (induction cs arbitrary: r) (simp_all add: receiveChunks_def handleChunk_inv)
  then show "distinct (map fst (chunkMap (receiveChunks r cs)))" by (simp add: recv_inv_def)
next
  show same: "withoutAcks (receiveChunks r cs) =
     withoutAcks (receiveChunks r (dropDuplicates (receivedChunkIndices r) cs))"
    by (rule dropDuplicates_same)
  show "receivedFiles (fst (handleFileComplete ct cks (receiveChunks r cs))) =
     receivedFiles (fst (handleFileComplete ct cks
        (receiveChunks r (dropDuplicates (receivedChunkIndices r) cs))))"
    using same by (rule complete_withoutAcks(1))
  show "snd (handleFileComplete ct cks (receiveChunks r cs)) =
     snd (handleFileComplete ct cks
        (receiveChunks r (dropDuplicates (receivedChunkIndices r) cs)))"
    using same by (rule complete_withoutAcks(2))
next
  show "distinct (map index (filter (\<lambda>c. index c < totalChunks c)
        (dropDuplicates (receivedChunkIndices r) cs)))"
    using dropDuplicates_distinct by blast
qed

text \<open>
  The first chunk of the three-byte file, received a second time.
\<close>

theorem chunk_idempotence_witness:
  "handleChunkWithSequence duplicate_chunk first_chunk_state =
     first_chunk_state\<lparr>sentMessages := [ChunkAck 0, ChunkAck 0]\<rparr>"
proof -
  have "receiving (idle_receiver\<lparr>channelOpen := True\<rparr>)" by (rule receiving_idle)
  then have "receiving idle_receiver" by (simp add: idle_receiver_def)
  then have r: "receiving first_chunk_state"
    unfolding first_chunk_state_def receiveAll_def by (rule receiving_runTasks)
  have h: "index duplicate_chunk \<in> receivedChunkIndices first_chunk_state"
    "index duplicate_chunk < totalChunks duplicate_chunk" "channelOpen first_chunk_state"
    "sentMessages first_chunk_state = [ChunkAck 0]"
    by (simp_all add: first_chunk_state_eval duplicate_chunk_def idle_receiver_def)
  show ?thesis
    using chunk_idempotence [of first_chunk_state duplicate_chunk "[]" None None] r h
    by (simp add: duplicate_chunk_def)
qed

subsection \<open>Missing chunks\<close>







subsection \<open>Backpressure\<close>

text \<open>
  The frames enqueued in a run of \<open>countedLoop\<close> are those that \<open>sendLoop\<close> sends when the
  channel shows what the runs of \<open>onload\<close> read there.
\<close>

lemma enqueuedFrames_append [simp]:
  "enqueuedFrames (ps @ qs) = enqueuedFrames ps @ enqueuedFrames qs"
  by (induction ps rule: enqueuedFrames.induct) simp_all

lemma enqueuedFrames_enqueue [simp]: "enqueuedFrames (enqueue tb b fs) = fs"
  by (induction fs arbitrary: b) simp_all

lemma countedLoop_sendLoop:
  "enqueuedFrames (countedLoop tb f cks b env st) =
     fst (sendLoop f cks (observations tb f cks b env st) st)"
proof (induction env arbitrary: b st)
  case Nil
  then show ?case by simp
next
  case (Cons e env)
  obtain opn drained where e: "e = (opn, drained)" by (cases e)
  obtain fs st1 nxt where o: "onload f cks (opn, b - drained) st = (fs, st1, nxt)"
    by (cases "onload f cks (opn, b - drained) st")
  show ?case
  proof (cases nxt)
    case None
    then show ?thesis
      using Cons.IH [of "bufferedAfter tb (b - drained) fs" st1] e o
      by (simp split: prod.splits)
  next
    case (Some r)
    then show ?thesis using e o by simp
  qed
qed

lemma countedLoop_bounded:
  assumes "b0 \<le> M" and "BUFFER_THRESHOLD + CHUNK_SIZE + 13 \<le> M"
      and "p \<in> set (countedLoop tb f cks b0 env st)"
  shows "case p of
           Observed b \<Rightarrow> b \<le> M
         | Enqueued (Binary x) c \<Rightarrow> c \<le> BUFFER_THRESHOLD + CHUNK_SIZE + 13
         | Enqueued (Text m) c \<Rightarrow> c \<le> BUFFER_THRESHOLD + CHUNK_SIZE + 13 + tb m"
  using assms(1,3)
proof (induction env arbitrary: b0 st)
  case Nil
  then show ?case by simp
next
  case (Cons e env)
  obtain opn drained where e: "e = (opn, drained)" by (cases e)
  let ?b = "b0 - drained"
  have b: "?b \<le> M" using Cons.prems(1) by simp
  obtain fs st1 nxt where o: "onload f cks (opn, ?b) st = (fs, st1, nxt)"
    by (cases "onload f cks (opn, ?b) st")
  let ?rest = "countedLoop tb f cks (bufferedAfter tb ?b fs) env st1"
  have mem: "p = Observed ?b \<or> p \<in> set (enqueue tb ?b fs) \<or> (nxt = None \<and> p \<in> set ?rest)"
    using Cons.prems(2) e o by (cases nxt) auto
  from onload_cases [OF o] consider
      (idle) "fs = []"
    | (one) x where "?b \<le> BUFFER_THRESHOLD" "length x \<le> CHUNK_SIZE + 13" "fs = [Binary x]"
    | (last) x m where "?b \<le> BUFFER_THRESHOLD" "length x \<le> CHUNK_SIZE + 13"
        "fs = [Binary x, Text m]" "nxt = Some Resolved"
    by blast
  then show ?case
  proof cases
    case idle
    then have after: "bufferedAfter tb ?b fs \<le> M" using b by (simp add: bufferedAfter_def)
    from mem idle have "p = Observed ?b \<or> (nxt = None \<and> p \<in> set ?rest)" by simp
    then show ?thesis using b Cons.IH [OF after] by auto
  next
    case one
    then have after: "bufferedAfter tb ?b fs \<le> BUFFER_THRESHOLD + CHUNK_SIZE + 13"
      by (simp add: bufferedAfter_def frameBytes_def)
    then have afterM: "bufferedAfter tb ?b fs \<le> M" using assms(2) by linarith
    from mem one(3) have "p = Observed ?b \<or> p = Enqueued (Binary x) (?b + length x) \<or>
        (nxt = None \<and> p \<in> set ?rest)"
      by (simp add: frameBytes_def)
    then show ?thesis using b one(1,2) Cons.IH [OF afterM] by auto
  next
    case last
    from mem last(3,4) have "p = Observed ?b \<or> p = Enqueued (Binary x) (?b + length x) \<or>
        p = Enqueued (Text m) (?b + length x + tb m)"
      by (auto simp: frameBytes_def)
    then show ?thesis using b last(1,2) by auto
  qed
qed

lemma chunkCount_two: "chunkCount two_chunk_file = 2"
  by (simp add: chunkCount_def fileSize_def two_chunk_file_def ceilDiv_def CHUNK_SIZE_def)

lemma two_chunk_first:
  "onload two_chunk_file None (True, 1048576) initialSendState =
     ([chunkFrame two_chunk_file 0],
      \<lparr>offset = CHUNK_SIZE, chunkIndex = 1, bytesSent = CHUNK_SIZE\<rparr>, None)"
proof -
  have rdy: "ready (True, 1048576)" by (simp add: ready_def BUFFER_THRESHOLD_def)
  have len: "length (chunkAt two_chunk_file 0) = CHUNK_SIZE"
    by (rule length_chunkAt_full) (simp add: chunkCount_two)
  show ?thesis
    using onload_sent [OF rdy, of initialSendState two_chunk_file None] len
    by (simp add: initialSendState_def chunkCount_two)
qed

text \<open>
  C9, as stated, fails: the frame that is enqueued is the chunk and its 13-byte header.
  With exactly 1 MiB buffered the sender sends a full chunk, and the counter stands at
  1 MiB + 65536 + 13, above 1 MiB + \<open>CHUNK_SIZE\<close>.
\<close>

theorem backpressure_counterexample:
  "countedLoop hundredBytes two_chunk_file None 1048576 [(True, 0)] initialSendState =
     [Observed 1048576, Enqueued (chunkFrame two_chunk_file 0) 1114125] \<and>
   BUFFER_THRESHOLD + CHUNK_SIZE = 1114112"
proof -
  have len: "length (chunkAt two_chunk_file 0) = CHUNK_SIZE"
    by (rule length_chunkAt_full) (simp add: chunkCount_two)
  have "countedLoop hundredBytes two_chunk_file None 1048576 [(True, 0)] initialSendState =
     [Observed 1048576, Enqueued (chunkFrame two_chunk_file 0) 1114125]"
    using len by (simp add: two_chunk_first frameBytes_def chunkFrame_def CHUNK_SIZE_def)
  moreover have "BUFFER_THRESHOLD + CHUNK_SIZE = 1114112"
    by (simp add: BUFFER_THRESHOLD_def CHUNK_SIZE_def)
  ultimately show ?thesis by blast
qed

text \<open>
  C9, amended. In each step of the chunk loop: if the channel is open and its counter is
  above 1 MiB the step sends nothing and leaves the offset and the index as they are, and
  re-reads the same slice as long as the offset is below the file size; a step sends only
  when the counter is at most 1 MiB, and then at most one chunk frame, of at most
  \<open>CHUNK_SIZE\<close> + 13 bytes. So on a channel that buffers indefinitely, whatever it transmits
  between the steps, the counter never exceeds 1 MiB + \<open>CHUNK_SIZE\<close> + 13 at any point of the
  loop (or what it stood at when the loop began, if that was more): right after a chunk
  frame is enqueued it is at most 1 MiB + \<open>CHUNK_SIZE\<close> + 13, and right after \<open>file-complete\<close>
  at most that and the length of this message.
\<close>

theorem backpressure:
  "(\<forall>opn buffered st fs st1 nxt.
      onload f cks (opn, buffered) st = (fs, st1, nxt) \<longrightarrow>
        (opn \<and> BUFFER_THRESHOLD < buffered \<longrightarrow>
           fs = [] \<and> st1 = st \<and> (offset st < fileSize f \<longrightarrow> nxt = None)) \<and>
        (fs \<noteq> [] \<longrightarrow> opn \<and> buffered \<le> BUFFER_THRESHOLD) \<and>
        length [x. Binary x \<leftarrow> fs] \<le> 1 \<and>
        (\<forall>x. Binary x \<in> set fs \<longrightarrow> length x \<le> CHUNK_SIZE + 13)) \<and>
   (\<forall>p \<in> set (countedLoop textBytes f cks b0 env st0).
      case p of
        Observed b \<Rightarrow> b \<le> max b0 (BUFFER_THRESHOLD + CHUNK_SIZE + 13)
      | Enqueued (Binary x) c \<Rightarrow> c \<le> BUFFER_THRESHOLD + CHUNK_SIZE + 13
      | Enqueued (Text m) c \<Rightarrow> c \<le> BUFFER_THRESHOLD + CHUNK_SIZE + 13 + textBytes m)"
proof (intro conjI allI impI ballI)
  fix opn buffered st fs st1 nxt
  assume o: "onload f cks (opn, buffered) st = (fs, st1, nxt)"
  {
    assume "opn \<and> BUFFER_THRESHOLD < buffered"
    then have "onload f cks (opn, buffered) st =
        ([], st, if offset st < fileSize f then None else Some Stalled)"
      by (simp add: onload_deferred)
    then show "fs = []" "st1 = st" "offset st < fileSize f \<Longrightarrow> nxt = None"
      using o by simp_all
  }
  {
    assume "fs \<noteq> []"
    then show "opn" "buffered \<le> BUFFER_THRESHOLD" using onload_cases [OF o] by auto
  }
  show "length [x. Binary x \<leftarrow> fs] \<le> 1" using onload_cases [OF o] by auto
  {
    fix x assume "Binary x \<in> set fs"
    then show "length x \<le> CHUNK_SIZE + 13" using onload_cases [OF o] by auto
  }
next
  fix p assume "p \<in> set (countedLoop textBytes f cks b0 env st0)"
  then show "case p of
        Observed b \<Rightarrow> b \<le> max b0 (BUFFER_THRESHOLD + CHUNK_SIZE + 13)
      | Enqueued (Binary x) c \<Rightarrow> c \<le> BUFFER_THRESHOLD + CHUNK_SIZE + 13
      | Enqueued (Text m) c \<Rightarrow> c \<le> BUFFER_THRESHOLD + CHUNK_SIZE + 13 + textBytes m"
    by (intro countedLoop_bounded [where M = "max b0 (BUFFER_THRESHOLD + CHUNK_SIZE + 13)"]) simp_all
qed

lemma small_file_counted:
  "countedLoop hundredBytes small_file None 500 [(True, 200)] initialSendState =
     [Observed 300, Enqueued (Binary [1, 0, 0, 0, 0, 1, 0, 0, 0, 3, 0, 0, 0, 7, 8, 9]) 316,
      Enqueued (Text (FileComplete ''a.bin'' (Some 1) None)) 416]"
  by (simp add: sender_eval small_file_def initialSendState_def frameBytes_def hundredBytes_def)

text \<open>
  The three-byte file, sent with 500 bytes buffered of which 200 are transmitted before
  the first step.
\<close>

theorem backpressure_witness:
  "Enqueued (Binary [1, 0, 0, 0, 0, 1, 0, 0, 0, 3, 0, 0, 0, 7, 8, 9]) 316
     \<in> set (countedLoop hundredBytes small_file None 500 [(True, 200)] initialSendState) \<and>
   (316 :: nat) \<le> BUFFER_THRESHOLD + CHUNK_SIZE + 13"
proof -
  have m: "Enqueued (Binary [1, 0, 0, 0, 0, 1, 0, 0, 0, 3, 0, 0, 0, 7, 8, 9]) 316
     \<in> set (countedLoop hundredBytes small_file None 500 [(True, 200)] initialSendState)"
    unfolding small_file_counted by simp
  from backpressure [of small_file None hundredBytes 500 "[(True, 200)]" initialSendState] m
  have "case Enqueued (Binary [1, 0, 0, 0, 0, 1, 0, 0, 0, 3, 0, 0, 0, 7, 8, 9]) 316 of
        Observed b \<Rightarrow> b \<le> max 500 (BUFFER_THRESHOLD + CHUNK_SIZE + 13)
      | Enqueued (Binary x) c \<Rightarrow> c \<le> BUFFER_THRESHOLD + CHUNK_SIZE + 13
      | Enqueued (Text m) c \<Rightarrow> c \<le> BUFFER_THRESHOLD + CHUNK_SIZE + 13 + hundredBytes m"
    by blast
  then show ?thesis using m by simp
qed

subsection \<open>The empty file\<close>

text \<open>
  On a channel that is open with its buffer at or below the threshold, the sender of an
  empty file emits the metadata, one chunk frame with index 0, \<open>totalChunks\<close> 0 and no data,
  and \<open>file-complete\<close>; the receiver drops the chunk frame and delivers the empty file.
\<close>

lemma empty_file_roundtrip:
  assumes "fileSize f = 0" and "buffered \<le> BUFFER_THRESHOLD"
  shows "sendFile f cks True True ((True, buffered) # env) =
           ([metadataFrame f, Binary [1, 0, 0, 0, 0, 0, 0, 0, 0, 0, 0, 0, 0], completeFrame f cks],
            Resolved)"
    and "handleDataChannelMessage r (ArrayBufferData [1, 0, 0, 0, 0, 0, 0, 0, 0, 0, 0, 0, 0]) =
           (r, None)"
    and "receivedFiles (receiveAll r
           [metadataFrame f, Binary [1, 0, 0, 0, 0, 0, 0, 0, 0, 0, 0, 0, 0], completeFrame f cks]) =
         receivedFiles r @ [(infoOf f, [])]"
proof -
  have c: "content f = []" using assms(1) by (simp add: fileSize_def)
  show s: "sendFile f cks True True ((True, buffered) # env) =
           ([metadataFrame f, Binary [1, 0, 0, 0, 0, 0, 0, 0, 0, 0, 0, 0, 0], completeFrame f cks],
            Resolved)"
    using assms c
    by (simp add: sendFile_def sendFileChunks_def onload_def Let_def metadataFrame_def
          completeFrame_def ceilDiv_def CHUNK_SIZE_def encodeChunk_def setUint32_def
          sliceBytes_def)
  show "handleDataChannelMessage r (ArrayBufferData [1, 0, 0, 0, 0, 0, 0, 0, 0, 0, 0, 0, 0]) =
           (r, None)"
    by (simp add: handleDataChannelMessage_def handleArrayBuffer_def handleChunkWithSequence_def
          getUint32_def)
  have "chunkCount f < 2 ^ 32" using assms(1) by (simp add: chunkCount_def ceilDiv_def CHUNK_SIZE_def)
  from receive_file(1) [OF this, of r cks] sendFile_resolved [OF s]
  show "receivedFiles (receiveAll r
           [metadataFrame f, Binary [1, 0, 0, 0, 0, 0, 0, 0, 0, 0, 0, 0, 0], completeFrame f cks]) =
         receivedFiles r @ [(infoOf f, [])]"
    using c by simp
qed

text \<open>
  But when the buffer is above the threshold at the first run of \<open>onload\<close>, the deferred
  callback re-reads only if \<open>offset < file.size\<close>, which is false for an empty file: nothing
  more is scheduled and the promise is never settled, whatever the channel does later.
\<close>

lemma empty_file_stalls_always:
  assumes "fileSize f = 0" and "BUFFER_THRESHOLD < buffered"
  shows "sendFile f cks True True ((True, buffered) # env) = ([metadataFrame f], Stalled)"
  using assms by (simp add: sendFile_def sendFileChunks_def onload_deferred metadataFrame_def)

text \<open>
  C10, at the failing input: an empty file, sent while more than 1 MiB is buffered. Only the
  metadata is sent; no chunk frame and no \<open>file-complete\<close> follow, although the next
  observation shows an empty buffer.
\<close>

theorem empty_file_stalls:
  "sendFile empty_file None True True [(True, 2000000), (True, 0)] =
     ([Text (FileMetadata ''empty'' 0 '''' 0)], Stalled)"
  by (simp add: sender_eval empty_file_def)

end
